theory Spec2Isabelle
  imports Complex_Main "HOL-Library.AList" "HOL-Library.Log_Nat"
begin

section \<open>Values and exceptions\<close>

text \<open>
  The program handles the values that \<^verbatim>\<open>json.loads\<close> returns: \<^verbatim>\<open>None\<close>, booleans,
  numbers, strings, lists and dictionaries. A dictionary is an association list in
  insertion order, read with \<open>map_of\<close>. Numbers are the integers; a number with a
  fraction or an exponent is a Python float and has no counterpart here. A character
  is a code point below 256.
\<close>

datatype json =
    JNull
  | JBool bool
  | JNum int
  | JStr string
  | JArr "json list"
  | JObj "(string \<times> json) list"

text \<open>
  The exceptions the code can meet, each with a text: for an exception that reaches a
  handler of \<^verbatim>\<open>extract_entities_relationships\<close> it is \<^verbatim>\<open>str(e)\<close>, which the handler
  shows; for one that \<^verbatim>\<open>create_graph\<close> raises it names the key or the operation that
  failed. \<open>JSONDecodeError\<close> is the class the first handler names. \<open>BaseException\<close>
  stands for the classes that do not derive from \<^verbatim>\<open>Exception\<close> (\<^verbatim>\<open>KeyboardInterrupt\<close>,
  \<^verbatim>\<open>SystemExit\<close>); every other constructor is a class \<^verbatim>\<open>except Exception\<close> catches.
\<close>

datatype exn =
    JSONDecodeError string
  | KeyError string
  | TypeError string
  | AttributeError string
  | ValueError string
  | ZeroDivisionError string
  | OverflowError string
  | OtherException string
  | BaseException string

fun str_exn :: "exn \<Rightarrow> string" where
  "str_exn (JSONDecodeError m) = m"
| "str_exn (KeyError m) = m"
| "str_exn (TypeError m) = m"
| "str_exn (AttributeError m) = m"
| "str_exn (ValueError m) = m"
| "str_exn (ZeroDivisionError m) = m"
| "str_exn (OverflowError m) = m"
| "str_exn (OtherException m) = m"
| "str_exn (BaseException m) = m"

section \<open>The prompt\<close>

text \<open>\<^verbatim>\<open>create_extraction_prompt\<close>: the f-string of lines 28 to 52, with the text spliced in.\<close>

definition prompt_head :: string where
  \<open>prompt_head =
    ''\<newline>'' @
    ''        Analyze the following text and extract entities and relationships. Return the result as a valid JSON object with the following structure:\<newline>'' @
    ''        \<newline>'' @
    ''        {\<newline>'' @
    ''            "entities": [\<newline>'' @
    ''                {"name": "entity_name", "type": "entity_type", "description": "brief_description"}\<newline>'' @
    ''            ],\<newline>'' @
    ''            "relationships": [\<newline>'' @
    ''                {"source": "entity1", "target": "entity2", "relationship": "relationship_type", "description": "relationship_description"}\<newline>'' @
    ''            ]\<newline>'' @
    ''        }\<newline>'' @
    ''        \<newline>'' @
    ''        Guidelines:\<newline>'' @
    ''        - Extract people, organizations, locations, concepts, events, and other significant entities\<newline>'' @
    ''        - Identify meaningful relationships between entities (works_for, located_in, part_of, leads_to, causes, etc.)\<newline>'' @
    ''        - Use clear, consistent entity names\<newline>'' @
    ''        - Provide brief but informative descriptions\<newline>'' @
    ''        - Focus on the most important entities and relationships\<newline>'' @
    ''        - Ensure all entities mentioned in relationships are also listed in the entities array\<newline>'' @
    ''        \<newline>'' @
    ''        Text to analyze:\<newline>'' @
    ''        ''\<close>

definition prompt_tail :: string where
  \<open>prompt_tail =
    ''\<newline>'' @
    ''        \<newline>'' @
    ''        Return only the JSON object, no additional text.\<newline>'' @
    ''        ''\<close>

definition create_extraction_prompt :: "string \<Rightarrow> string" where
  "create_extraction_prompt text = prompt_head @ text @ prompt_tail"

section \<open>Recovering the JSON text from the response\<close>

text \<open>
  A text is a list of characters with code points below 256. \<^verbatim>\<open>str.isspace\<close> on
  them: the ASCII white space, the four separators 28 to 31, NEL (133) and the no-break
  space (160). The white space of Unicode from code point 256 on is not represented.
\<close>

definition isspace :: "char \<Rightarrow> bool" where
  "isspace c = (of_char c \<in> {9, 10, 11, 12, 13, 28, 29, 30, 31, 32, 133, 160 :: nat})"

text \<open>\<^verbatim>\<open>str.strip()\<close>: white space is dropped at both ends.\<close>

definition strip :: "string \<Rightarrow> string" where
  "strip s = rev (dropWhile isspace (rev (dropWhile isspace s)))"

text \<open>
  \<^verbatim>\<open>re.search(r'\{.*\}', response_text, re.DOTALL)\<close>, as the backtracking matcher runs
  it. \<open>match_rest\<close> matches \<^verbatim>\<open>.*\}\<close> at the head of its argument: the star is greedy, so
  it first takes one more character (any character, under \<^verbatim>\<open>DOTALL\<close>) and matches
  the rest of the pattern behind it, and only when that fails it tries the closing brace at
  the position where it stands. \<open>re_search\<close> tries the start positions from left to
  right and returns the text of the first match, \<^verbatim>\<open>json_match.group()\<close>.
\<close>

fun match_rest :: "string \<Rightarrow> string option" where
  "match_rest [] = None"
| "match_rest (c # cs) =
     (case match_rest cs of
        Some m \<Rightarrow> Some (c # m)
      | None \<Rightarrow> if c = CHR ''}'' then Some [c] else None)"

fun re_search :: "string \<Rightarrow> string option" where
  "re_search [] = None"
| "re_search (c # cs) =
     (if c = CHR ''{'' then
        (case match_rest cs of
           Some m \<Rightarrow> Some (c # m)
         | None \<Rightarrow> re_search cs)
      else re_search cs)"

text \<open>
  The rule in the specification's words: the text from the first opening brace to the last
  closing brace, when the last closing brace stands behind the first opening brace.
  \<open>first_open s\<close> is the index of the first opening brace and \<open>last_close s\<close> the index
  just behind the last closing brace.
\<close>

definition first_open :: "string \<Rightarrow> nat" where
  "first_open s = length (takeWhile (\<lambda>c. c \<noteq> CHR ''{'') s)"

definition last_close :: "string \<Rightarrow> nat" where
  "last_close s = length s - length (takeWhile (\<lambda>c. c \<noteq> CHR ''}'') (rev s))"

definition greedy_braces :: "string \<Rightarrow> string option" where
  "greedy_braces s =
     (if CHR ''{'' \<in> set s \<and> CHR ''}'' \<in> set s \<and> first_open s < last_close s - 1
      then Some (take (last_close s - first_open s) (drop (first_open s) s))
      else None)"

text \<open>
  Lines 62 to 71: the text handed to \<^verbatim>\<open>json.loads\<close> and its result. \<open>loads\<close> is
  \<^verbatim>\<open>json.loads\<close> of the standard library, a parameter here.
\<close>

definition json_source :: "string \<Rightarrow> string" where
  "json_source response =
     (let response_text = strip response in
      case re_search response_text of
        Some json_str \<Rightarrow> json_str
      | None \<Rightarrow> response_text)"

definition empty_result :: json where
  "empty_result = JObj [(''entities'', JArr []), (''relationships'', JArr [])]"

text \<open>
  The two handlers of lines 73 to 78, tried in their order. A handled exception gives the
  returned value and the messages passed to \<^verbatim>\<open>st.error\<close>; an exception that no handler
  catches leaves the function.
\<close>

fun handle_exn :: "exn \<Rightarrow> exn + json \<times> string list" where
  "handle_exn (JSONDecodeError m) =
     Inr (empty_result, [''Error parsing AI response: '' @ str_exn (JSONDecodeError m)])"
| "handle_exn (BaseException m) = Inl (BaseException m)"
| "handle_exn e = Inr (empty_result, [''Error calling Gemini API: '' @ str_exn e])"

text \<open>
  \<^verbatim>\<open>extract_entities_relationships\<close>. \<open>generate_content\<close> stands for the call of the model
  and the read of \<^verbatim>\<open>response.text\<close>: it returns the text or the exception raised.
\<close>

definition extract_entities_relationships ::
  "(string \<Rightarrow> exn + string) \<Rightarrow> (string \<Rightarrow> exn + json) \<Rightarrow> string \<Rightarrow> exn + json \<times> string list" where
  "extract_entities_relationships generate_content loads text =
     (case generate_content (create_extraction_prompt text) of
        Inl e \<Rightarrow> handle_exn e
      | Inr response \<Rightarrow>
          (case loads (json_source response) of
             Inl e \<Rightarrow> handle_exn e
           | Inr v \<Rightarrow> Inr (v, [])))"

section \<open>Dictionaries\<close>

text \<open>
  A Python dictionary keeps its keys in insertion order; a store to a key that is present
  replaces the value where it stands, which is \<open>AList.update\<close>. \<open>dict_update d e\<close> is
  \<^verbatim>\<open>d.update(e)\<close>.
\<close>

definition dict_update :: "('k \<times> 'v) list \<Rightarrow> ('k \<times> 'v) list \<Rightarrow> ('k \<times> 'v) list" where
  "dict_update d e = foldl (\<lambda>d (k, v). AList.update k v d) d e"

section \<open>A decoder for concrete responses\<close>

text \<open>
  \<^verbatim>\<open>json.loads\<close> belongs to the standard library and stays a parameter of the extractor.
  To run the extractor on concrete responses, \<open>decode\<close> decodes a fragment of what the
  library decodes and says so where it stops: its answer is the decoded value, or that the
  text is malformed (the library raises \<^verbatim>\<open>JSONDecodeError\<close>), or that the text lies
  beyond the fragment, which is no statement about the library. Beyond the fragment are
  fractions, exponents, \<^verbatim>\<open>NaN\<close> and \<^verbatim>\<open>Infinity\<close> (floating point), escapes of code
  points from 256 on, integers of more than 4300 digits and nesting deeper than 100,
  where the library may raise \<^verbatim>\<open>ValueError\<close> or \<^verbatim>\<open>RecursionError\<close>. A repeated key keeps
  its first place and its last value, as \<^verbatim>\<open>dict(pairs)\<close> does.
\<close>

datatype 'a outcome = Good 'a | Malformed | Beyond

datatype token = TLBrace | TRBrace | TLBracket | TRBracket | TColon | TComma | TValue json

datatype lexmode =
    LStart
  | LString string
  | LEscape string
  | LUnicode string nat nat
  | LNumber string
  | LWord string

definition json_space :: "char \<Rightarrow> bool" where
  "json_space c = (of_char c \<in> {32, 9, 10, 13 :: nat})"

definition is_digit :: "char \<Rightarrow> bool" where
  "is_digit c = (48 \<le> (of_char c :: nat) \<and> (of_char c :: nat) \<le> 57)"

definition is_lower :: "char \<Rightarrow> bool" where
  "is_lower c = (97 \<le> (of_char c :: nat) \<and> (of_char c :: nat) \<le> 122)"

definition escape_char :: "char \<Rightarrow> char option" where
  "escape_char c =
     (if c = CHR 0x22 then Some (CHR 0x22)
      else if c = CHR 0x5C then Some (CHR 0x5C)
      else if c = CHR ''/'' then Some (CHR ''/'')
      else if c = CHR ''b'' then Some (CHR 0x08)
      else if c = CHR ''f'' then Some (CHR 0x0C)
      else if c = CHR ''n'' then Some (CHR 0x0A)
      else if c = CHR ''r'' then Some (CHR 0x0D)
      else if c = CHR ''t'' then Some (CHR 0x09)
      else None)"

definition hex_value :: "char \<Rightarrow> nat option" where
  "hex_value c =
     (let n = (of_char c :: nat) in
      if 48 \<le> n \<and> n \<le> 57 then Some (n - 48)
      else if 65 \<le> n \<and> n \<le> 70 then Some (n - 55)
      else if 97 \<le> n \<and> n \<le> 102 then Some (n - 87)
      else None)"

definition digits_value :: "string \<Rightarrow> int outcome" where
  "digits_value ds =
     (if ds = [] \<or> \<not> list_all is_digit ds \<or> (1 < length ds \<and> hd ds = CHR ''0'') then Malformed
      else if 4300 < length ds then Beyond
      else Good (foldl (\<lambda>n c. 10 * n + (int (of_char c) - 48)) 0 ds))"

definition number_value :: "string \<Rightarrow> int outcome" where
  "number_value s =
     (case s of
        [] \<Rightarrow> Malformed
      | c # ds \<Rightarrow>
          if c = CHR ''-'' then
            (case digits_value ds of Good n \<Rightarrow> Good (- n) | Malformed \<Rightarrow> Malformed | Beyond \<Rightarrow> Beyond)
          else digits_value s)"

definition word_value :: "string \<Rightarrow> json option" where
  "word_value w =
     (if w = ''true'' then Some (JBool True)
      else if w = ''false'' then Some (JBool False)
      else if w = ''null'' then Some JNull
      else None)"

text \<open>
  What a character does where a token may start: the tokens it completes and the mode for
  the next character. \<^verbatim>\<open>N\<close> and \<^verbatim>\<open>I\<close> start \<^verbatim>\<open>NaN\<close> and \<^verbatim>\<open>Infinity\<close>.
\<close>

definition start_char :: "char \<Rightarrow> (token list \<times> lexmode) outcome" where
  "start_char c =
     (if json_space c then Good ([], LStart)
      else if c = CHR ''{'' then Good ([TLBrace], LStart)
      else if c = CHR ''}'' then Good ([TRBrace], LStart)
      else if c = CHR ''['' then Good ([TLBracket], LStart)
      else if c = CHR '']'' then Good ([TRBracket], LStart)
      else if c = CHR '':'' then Good ([TColon], LStart)
      else if c = CHR '','' then Good ([TComma], LStart)
      else if c = CHR 0x22 then Good ([], LString [])
      else if c = CHR ''-'' \<or> is_digit c then Good ([], LNumber [c])
      else if is_lower c then Good ([], LWord [c])
      else if c = CHR ''N'' \<or> c = CHR ''I'' then Beyond
      else Malformed)"

text \<open>The nesting depth behind a character that starts a token.\<close>

definition depth_after :: "nat \<Rightarrow> char \<Rightarrow> nat" where
  "depth_after d c =
     (if c = CHR ''{'' \<or> c = CHR ''['' then Suc d
      else if c = CHR ''}'' \<or> c = CHR '']'' then d - 1
      else d)"

fun emit :: "token list \<Rightarrow> token list outcome \<Rightarrow> token list outcome" where
  "emit ts (Good r) = Good (ts @ r)"
| "emit ts Malformed = Malformed"
| "emit ts Beyond = Beyond"

text \<open>
  The lexer reads one character at a time; its first failure is the answer. \<open>d\<close> is the
  nesting depth.
\<close>

fun lex :: "nat \<Rightarrow> lexmode \<Rightarrow> string \<Rightarrow> token list outcome" where
  "lex d LStart [] = Good []"
| "lex d (LString acc) [] = Malformed"
| "lex d (LEscape acc) [] = Malformed"
| "lex d (LUnicode acc k n) [] = Malformed"
| "lex d (LNumber acc) [] =
     (case number_value (rev acc) of
        Good n \<Rightarrow> Good [TValue (JNum n)]
      | Malformed \<Rightarrow> Malformed
      | Beyond \<Rightarrow> Beyond)"
| "lex d (LWord acc) [] =
     (case word_value (rev acc) of
        Some v \<Rightarrow> Good [TValue v]
      | None \<Rightarrow> Malformed)"
| "lex d LStart (c # cs) =
     (case start_char c of
        Good (ts, m) \<Rightarrow>
          if 100 < depth_after d c then Beyond else emit ts (lex (depth_after d c) m cs)
      | Malformed \<Rightarrow> Malformed
      | Beyond \<Rightarrow> Beyond)"
| "lex d (LString acc) (c # cs) =
     (if c = CHR 0x22 then emit [TValue (JStr (rev acc))] (lex d LStart cs)
      else if c = CHR 0x5C then lex d (LEscape acc) cs
      else if (of_char c :: nat) < 32 then Malformed
      else lex d (LString (c # acc)) cs)"
| "lex d (LEscape acc) (c # cs) =
     (if c = CHR ''u'' then lex d (LUnicode acc 0 0) cs
      else
        (case escape_char c of
           None \<Rightarrow> Malformed
         | Some e \<Rightarrow> lex d (LString (e # acc)) cs))"
| "lex d (LUnicode acc k n) (c # cs) =
     (case hex_value c of
        None \<Rightarrow> Malformed
      | Some h \<Rightarrow>
          if k < 3 then lex d (LUnicode acc (Suc k) (16 * n + h)) cs
          else if 16 * n + h < 256 then lex d (LString (char_of (16 * n + h) # acc)) cs
          else Beyond)"
| "lex d (LNumber acc) (c # cs) =
     (if is_digit c then lex d (LNumber (c # acc)) cs
      else if c = CHR ''.'' \<or> c = CHR ''e'' \<or> c = CHR ''E'' \<or> c = CHR ''I'' then Beyond
      else
        (case number_value (rev acc) of
           Good n \<Rightarrow>
             (case start_char c of
                Good (ts, m) \<Rightarrow>
                  if 100 < depth_after d c then Beyond
                  else emit (TValue (JNum n) # ts) (lex (depth_after d c) m cs)
              | Malformed \<Rightarrow> Malformed
              | Beyond \<Rightarrow> Beyond)
         | Malformed \<Rightarrow> Malformed
         | Beyond \<Rightarrow> Beyond))"
| "lex d (LWord acc) (c # cs) =
     (if is_lower c then lex d (LWord (c # acc)) cs
      else
        (case word_value (rev acc) of
           Some v \<Rightarrow>
             (case start_char c of
                Good (ts, m) \<Rightarrow>
                  if 100 < depth_after d c then Beyond
                  else emit (TValue v # ts) (lex (depth_after d c) m cs)
              | Malformed \<Rightarrow> Malformed
              | Beyond \<Rightarrow> Beyond)
         | None \<Rightarrow> Malformed))"

text \<open>
  The parser runs over the tokens with a stack of the open arrays and objects and what it
  expects next; a trailing comma, a missing colon and text behind the value are refused.
\<close>

datatype frame = FArray "json list" | FObject "(string \<times> json) list" "string option"

datatype expect = EValue | EValueOrClose | EKeyOrClose | EKey | EColon | ECommaOrClose | EEnd json

definition dict_of_pairs :: "(string \<times> json) list \<Rightarrow> (string \<times> json) list" where
  "dict_of_pairs pairs = dict_update [] pairs"

fun reduce :: "json \<Rightarrow> frame list \<Rightarrow> (expect \<times> frame list) option" where
  "reduce v [] = Some (EEnd v, [])"
| "reduce v (FArray xs # st) = Some (ECommaOrClose, FArray (v # xs) # st)"
| "reduce v (FObject kvs (Some k) # st) = Some (ECommaOrClose, FObject ((k, v) # kvs) None # st)"
| "reduce v (FObject kvs None # st) = None"

fun begin_value :: "token \<Rightarrow> frame list \<Rightarrow> (expect \<times> frame list) option" where
  "begin_value (TValue v) st = reduce v st"
| "begin_value TLBrace st = Some (EKeyOrClose, FObject [] None # st)"
| "begin_value TLBracket st = Some (EValueOrClose, FArray [] # st)"
| "begin_value _ st = None"

fun close_array :: "frame list \<Rightarrow> (expect \<times> frame list) option" where
  "close_array (FArray xs # st) = reduce (JArr (rev xs)) st"
| "close_array _ = None"

fun close_object :: "frame list \<Rightarrow> (expect \<times> frame list) option" where
  "close_object (FObject kvs None # st) = reduce (JObj (dict_of_pairs (rev kvs))) st"
| "close_object _ = None"

fun take_key :: "token \<Rightarrow> frame list \<Rightarrow> (expect \<times> frame list) option" where
  "take_key (TValue (JStr k)) (FObject kvs None # st) = Some (EColon, FObject kvs (Some k) # st)"
| "take_key _ _ = None"

fun after_comma :: "frame list \<Rightarrow> (expect \<times> frame list) option" where
  "after_comma (FArray xs # st) = Some (EValue, FArray xs # st)"
| "after_comma (FObject kvs k # st) = Some (EKey, FObject kvs k # st)"
| "after_comma [] = None"

fun parse_step :: "expect \<Rightarrow> frame list \<Rightarrow> token \<Rightarrow> (expect \<times> frame list) option" where
  "parse_step EValue st t = begin_value t st"
| "parse_step EValueOrClose st t = (if t = TRBracket then close_array st else begin_value t st)"
| "parse_step EKeyOrClose st t = (if t = TRBrace then close_object st else take_key t st)"
| "parse_step EKey st t = take_key t st"
| "parse_step EColon st t = (if t = TColon then Some (EValue, st) else None)"
| "parse_step ECommaOrClose st t =
     (if t = TComma then after_comma st
      else if t = TRBracket then close_array st
      else if t = TRBrace then close_object st
      else None)"
| "parse_step (EEnd v) st t = None"

fun parse :: "expect \<Rightarrow> frame list \<Rightarrow> token list \<Rightarrow> json option" where
  "parse e st [] = (case e of EEnd v \<Rightarrow> Some v | _ \<Rightarrow> None)"
| "parse e st (t # ts) =
     (case parse_step e st t of
        None \<Rightarrow> None
      | Some (e', st') \<Rightarrow> parse e' st' ts)"

definition decode :: "string \<Rightarrow> json outcome" where
  "decode s =
     (case lex 0 LStart s of
        Good ts \<Rightarrow>
          (case parse EValue [] ts of
             Some v \<Rightarrow> Good v
           | None \<Rightarrow> Malformed)
      | Malformed \<Rightarrow> Malformed
      | Beyond \<Rightarrow> Beyond)"

text \<open>
  \<^verbatim>\<open>json.loads\<close> as far as \<open>decode\<close> answers. The message of a \<^verbatim>\<open>JSONDecodeError\<close>,
  which the library builds from the fault and its position, and the library's behaviour
  beyond the fragment are parameters: what is proved with \<open>json_loads message beyond\<close>
  for every \<open>message\<close> and \<open>beyond\<close> holds of the library.
\<close>

definition json_loads :: "(string \<Rightarrow> string) \<Rightarrow> (string \<Rightarrow> exn + json) \<Rightarrow> string \<Rightarrow> exn + json" where
  "json_loads message beyond s =
     (case decode s of
        Good v \<Rightarrow> Inr v
      | Malformed \<Rightarrow> Inl (JSONDecodeError (message s))
      | Beyond \<Rightarrow> beyond s)"

section \<open>The graph\<close>

text \<open>
  A node of a \<^verbatim>\<open>networkx\<close> graph is any hashable object but \<^verbatim>\<open>None\<close>. Dictionary keys
  are compared with \<^verbatim>\<open>==\<close>, under which \<^verbatim>\<open>True\<close> is \<^verbatim>\<open>1\<close> and \<^verbatim>\<open>False\<close> is \<^verbatim>\<open>0\<close>;
  lists and dictionaries are not hashable.
\<close>

datatype key = KNone | KNum int | KStr string

fun key_of :: "json \<Rightarrow> key option" where
  "key_of JNull = Some KNone"
| "key_of (JBool b) = Some (KNum (if b then 1 else 0))"
| "key_of (JNum n) = Some (KNum n)"
| "key_of (JStr s) = Some (KStr s)"
| "key_of (JArr xs) = None"
| "key_of (JObj kvs) = None"

text \<open>
  \<^verbatim>\<open>nx.Graph\<close> holds two dictionaries: \<^verbatim>\<open>_node\<close> maps a node to its attribute dictionary,
  \<^verbatim>\<open>_adj\<close> maps a node to the dictionary of its neighbours, each with the attribute
  dictionary of the edge. An edge between \<open>u\<close> and \<open>v\<close> is stored under \<open>u\<close> and under
  \<open>v\<close>.
\<close>

type_synonym attrs = "(string \<times> json) list"

record graph =
  node :: "(key \<times> attrs) list"
  adj :: "(key \<times> (key \<times> attrs) list) list"

definition empty_graph :: graph where
  "empty_graph = \<lparr>node = [], adj = []\<rparr>"

text \<open>
  \<^verbatim>\<open>Graph.add_node(node_for_adding, **attr)\<close>: the membership test hashes the node; a
  new node gets an empty neighbour dictionary and the attributes, a node that is present
  has its attribute dictionary updated.
\<close>

definition add_node :: "json \<Rightarrow> attrs \<Rightarrow> graph \<Rightarrow> exn + graph" where
  "add_node node_for_adding attr G =
     (case key_of node_for_adding of
        None \<Rightarrow> Inl (TypeError ''unhashable type'')
      | Some n \<Rightarrow>
          (case map_of (node G) n of
             None \<Rightarrow>
               if n = KNone then Inl (ValueError ''None cannot be a node'')
               else Inr (G\<lparr>adj := AList.update n [] (adj G),
                           node := AList.update n (dict_update [] attr) (node G)\<rparr>)
           | Some attr_dict \<Rightarrow>
               Inr (G\<lparr>node := AList.update n (dict_update attr_dict attr) (node G)\<rparr>)))"

text \<open>\<^verbatim>\<open>Graph.has_node(n)\<close>: \<^verbatim>\<open>n in self._node\<close>, and \<^verbatim>\<open>False\<close> when \<open>n\<close> is not hashable.\<close>

definition has_node :: "graph \<Rightarrow> json \<Rightarrow> bool" where
  "has_node G n =
     (case key_of n of
        None \<Rightarrow> False
      | Some k \<Rightarrow> map_of (node G) k \<noteq> None)"

text \<open>
  \<^verbatim>\<open>Graph.add_edge(u_of_edge, v_of_edge, **attr)\<close>. An end that is not a node yet is added
  with no attributes. The attribute dictionary of the edge, a new one when there is
  no edge yet, is updated and stored in both directions.
\<close>

definition ensure_node :: "key \<Rightarrow> graph \<Rightarrow> exn + graph" where
  "ensure_node u G =
     (case map_of (node G) u of
        None \<Rightarrow>
          if u = KNone then Inl (ValueError ''None cannot be a node'')
          else Inr (G\<lparr>adj := AList.update u [] (adj G), node := AList.update u [] (node G)\<rparr>)
      | Some attr_dict \<Rightarrow> Inr G)"

definition link :: "key \<Rightarrow> key \<Rightarrow> attrs \<Rightarrow> graph \<Rightarrow> exn + graph" where
  "link u v attr G =
     (case map_of (adj G) u of
        None \<Rightarrow> Inl (KeyError ''u'')
      | Some nbrs_u \<Rightarrow>
          (let datadict = dict_update (case map_of nbrs_u v of Some d \<Rightarrow> d | None \<Rightarrow> []) attr;
               adj1 = AList.update u (AList.update v datadict nbrs_u) (adj G)
           in case map_of adj1 v of
                None \<Rightarrow> Inl (KeyError ''v'')
              | Some nbrs_v \<Rightarrow>
                  Inr (G\<lparr>adj := AList.update v (AList.update u datadict nbrs_v) adj1\<rparr>)))"

definition add_edge :: "json \<Rightarrow> json \<Rightarrow> attrs \<Rightarrow> graph \<Rightarrow> exn + graph" where
  "add_edge u_of_edge v_of_edge attr G =
     (case key_of u_of_edge of
        None \<Rightarrow> Inl (TypeError ''unhashable type'')
      | Some u \<Rightarrow>
          (case ensure_node u G of
             Inl e \<Rightarrow> Inl e
           | Inr G1 \<Rightarrow>
               (case key_of v_of_edge of
                  None \<Rightarrow> Inl (TypeError ''unhashable type'')
                | Some v \<Rightarrow>
                    (case ensure_node v G1 of
                       Inl e \<Rightarrow> Inl e
                     | Inr G2 \<Rightarrow> link u v attr G2))))"

section \<open>Assembling the graph\<close>

text \<open>The Python operations \<^verbatim>\<open>create_graph\<close> applies to the decoded values.\<close>

fun truthy :: "json \<Rightarrow> bool" where
  "truthy JNull = False"
| "truthy (JBool b) = b"
| "truthy (JNum n) = (n \<noteq> 0)"
| "truthy (JStr s) = (s \<noteq> [])"
| "truthy (JArr xs) = (xs \<noteq> [])"
| "truthy (JObj kvs) = (kvs \<noteq> [])"

text \<open>\<^verbatim>\<open>x.get(k, default)\<close>: only a dictionary has the method.\<close>

definition dict_get :: "(string \<times> json) list \<Rightarrow> string \<Rightarrow> json \<Rightarrow> json" where
  "dict_get kvs k default_value = (case map_of kvs k of Some v \<Rightarrow> v | None \<Rightarrow> default_value)"

fun py_get :: "json \<Rightarrow> string \<Rightarrow> json \<Rightarrow> exn + json" where
  "py_get (JObj kvs) k default_value = Inr (dict_get kvs k default_value)"
| "py_get x k default_value = Inl (AttributeError ''get'')"

text \<open>\<^verbatim>\<open>x[k]\<close> for a string \<open>k\<close>: a missing key raises, and so does every other type.\<close>

fun py_subscript :: "json \<Rightarrow> string \<Rightarrow> exn + json" where
  "py_subscript (JObj kvs) k =
     (case map_of kvs k of Some v \<Rightarrow> Inr v | None \<Rightarrow> Inl (KeyError k))"
| "py_subscript x k = Inl (TypeError ''subscript'')"

text \<open>
  \<^verbatim>\<open>for x in v\<close>: a list gives its elements, a dictionary its keys, a string its
  characters; nothing else is iterable.
\<close>

fun py_iter :: "json \<Rightarrow> exn + json list" where
  "py_iter (JArr xs) = Inr xs"
| "py_iter (JObj kvs) = Inr (map (\<lambda>kv. JStr (fst kv)) kvs)"
| "py_iter (JStr s) = Inr (map (\<lambda>c. JStr [c]) s)"
| "py_iter x = Inl (TypeError ''not iterable'')"

text \<open>The body of the first loop, lines 86 to 90. The subscript is evaluated first.\<close>

definition add_entity :: "json \<Rightarrow> graph \<Rightarrow> exn + graph" where
  "add_entity entity G =
     (case py_subscript entity ''name'' of
        Inl e \<Rightarrow> Inl e
      | Inr name \<Rightarrow>
          (case py_get entity ''type'' (JStr ''unknown'') of
             Inl e \<Rightarrow> Inl e
           | Inr t \<Rightarrow>
               (case py_get entity ''description'' (JStr []) of
                  Inl e \<Rightarrow> Inl e
                | Inr d \<Rightarrow> add_node name [(''type'', t), (''description'', d)] G)))"

text \<open>The body of the second loop, lines 94 to 103.\<close>

definition add_relationship :: "json \<Rightarrow> graph \<Rightarrow> exn + graph" where
  "add_relationship rel G =
     (case py_get rel ''source'' (JStr []) of
        Inl e \<Rightarrow> Inl e
      | Inr source \<Rightarrow>
          (case py_get rel ''target'' (JStr []) of
             Inl e \<Rightarrow> Inl e
           | Inr target \<Rightarrow>
               if truthy source \<and> truthy target \<and> has_node G source \<and> has_node G target then
                 (case py_get rel ''relationship'' (JStr ''related_to'') of
                    Inl e \<Rightarrow> Inl e
                  | Inr r \<Rightarrow>
                      (case py_get rel ''description'' (JStr []) of
                         Inl e \<Rightarrow> Inl e
                       | Inr d \<Rightarrow>
                           add_edge source target [(''relationship'', r), (''description'', d)] G))
               else Inr G))"

text \<open>A loop over a list whose body may raise: the first exception ends it.\<close>

fun for_each :: "(json \<Rightarrow> graph \<Rightarrow> exn + graph) \<Rightarrow> json list \<Rightarrow> graph \<Rightarrow> exn + graph" where
  "for_each body [] G = Inr G"
| "for_each body (x # xs) G =
     (case body x G of
        Inl e \<Rightarrow> Inl e
      | Inr G' \<Rightarrow> for_each body xs G')"

text \<open>The values a loop of \<^verbatim>\<open>create_graph\<close> runs over: \<^verbatim>\<open>extracted_data.get(field, [])\<close>.\<close>

definition records :: "json \<Rightarrow> string \<Rightarrow> exn + json list" where
  "records extracted_data field =
     (case py_get extracted_data field (JArr []) of
        Inl e \<Rightarrow> Inl e
      | Inr v \<Rightarrow> py_iter v)"

definition create_graph :: "json \<Rightarrow> exn + graph" where
  "create_graph extracted_data =
     (case records extracted_data ''entities'' of
        Inl e \<Rightarrow> Inl e
      | Inr entities \<Rightarrow>
          (case for_each add_entity entities empty_graph of
             Inl e \<Rightarrow> Inl e
           | Inr G \<Rightarrow>
               (case records extracted_data ''relationships'' of
                  Inl e \<Rightarrow> Inl e
                | Inr relationships \<Rightarrow> for_each add_relationship relationships G)))"

section \<open>Reading the graph\<close>

text \<open>\<^verbatim>\<open>G.nodes[n]\<close> and \<^verbatim>\<open>G.get_edge_data(u, v)\<close>.\<close>

definition node_data :: "graph \<Rightarrow> key \<Rightarrow> attrs option" where
  "node_data G n = map_of (node G) n"

definition edge_data :: "graph \<Rightarrow> key \<Rightarrow> key \<Rightarrow> attrs option" where
  "edge_data G u v =
     (case map_of (adj G) u of
        None \<Rightarrow> None
      | Some nbrs \<Rightarrow> map_of nbrs v)"

text \<open>
  Iterating \<^verbatim>\<open>G.edges()\<close>: every node in turn reports the neighbours that have not
  been reported as nodes before it, so an edge comes once, and a loop at a node once.
\<close>

fun edges_from :: "key list \<Rightarrow> (key \<times> (key \<times> attrs) list) list \<Rightarrow> (key \<times> key) list" where
  "edges_from seen [] = []"
| "edges_from seen ((n, nbrs) # rest) =
     map (\<lambda>nbr. (n, nbr)) (filter (\<lambda>nbr. nbr \<notin> set seen) (map fst nbrs))
       @ edges_from (n # seen) rest"

definition edges :: "graph \<Rightarrow> (key \<times> key) list" where
  "edges G = edges_from [] (adj G)"




section \<open>Floating point\<close>











section \<open>The statistics\<close>





section \<open>Vocabulary of the properties\<close>

text \<open>
  The node an entity record names: the key of its \<^verbatim>\<open>name\<close> field, when the record is a
  dictionary with a hashable name.
\<close>

fun name_key :: "json \<Rightarrow> key option" where
  "name_key (JObj kvs) = (case map_of kvs ''name'' of Some n \<Rightarrow> key_of n | None \<Rightarrow> None)"
| "name_key x = None"

text \<open>The keys that are false in a condition: \<^verbatim>\<open>None\<close>, zero and the empty string.\<close>

fun truthy_key :: "key \<Rightarrow> bool" where
  "truthy_key KNone = False"
| "truthy_key (KNum n) = (n \<noteq> 0)"
| "truthy_key (KStr s) = (s \<noteq> [])"

text \<open>
  What \<^verbatim>\<open>networkx\<close> maintains in an undirected graph: the two dictionaries have the same
  keys in the same order, \<^verbatim>\<open>None\<close> is not among them, and an edge is stored in both
  directions with the same attributes.
\<close>

definition graph_ok :: "graph \<Rightarrow> bool" where
  "graph_ok G \<longleftrightarrow>
     distinct (map fst (node G)) \<and> map fst (adj G) = map fst (node G) \<and>
     KNone \<notin> set (map fst (node G)) \<and>
     (\<forall>u nbrs. map_of (adj G) u = Some nbrs \<longrightarrow> distinct (map fst nbrs)) \<and>
     (\<forall>u v. edge_data G u v = edge_data G v u)"

text \<open>
  The attribute dictionaries \<^verbatim>\<open>create_graph\<close> passes for an entity record and for a
  relationship record, and the test of line 97 on a relationship record.
\<close>

definition node_attrs :: "(string \<times> json) list \<Rightarrow> attrs" where
  "node_attrs kvs =
     [(''type'', dict_get kvs ''type'' (JStr ''unknown'')),
      (''description'', dict_get kvs ''description'' (JStr []))]"

definition edge_attrs :: "(string \<times> json) list \<Rightarrow> attrs" where
  "edge_attrs kvs =
     [(''relationship'', dict_get kvs ''relationship'' (JStr ''related_to'')),
      (''description'', dict_get kvs ''description'' (JStr []))]"

definition linkable :: "graph \<Rightarrow> (string \<times> json) list \<Rightarrow> bool" where
  "linkable G kvs \<longleftrightarrow>
     truthy (dict_get kvs ''source'' (JStr [])) \<and> truthy (dict_get kvs ''target'' (JStr [])) \<and>
     has_node G (dict_get kvs ''source'' (JStr [])) \<and> has_node G (dict_get kvs ''target'' (JStr []))"

text \<open>A relationship record whose ends are the nodes \<open>u\<close> and \<open>v\<close>, in either direction.\<close>

definition joins :: "(string \<times> json) list \<Rightarrow> key \<Rightarrow> key \<Rightarrow> bool" where
  "joins kvs u v \<longleftrightarrow>
     (key_of (dict_get kvs ''source'' (JStr [])) = Some u \<and>
      key_of (dict_get kvs ''target'' (JStr [])) = Some v) \<or>
     (key_of (dict_get kvs ''source'' (JStr [])) = Some v \<and>
      key_of (dict_get kvs ''target'' (JStr [])) = Some u)"

text \<open>The shape of the attribute dictionaries in a graph that \<^verbatim>\<open>create_graph\<close> builds.\<close>

definition typed_nodes :: "graph \<Rightarrow> bool" where
  "typed_nodes G \<longleftrightarrow>
     (\<forall>k a. map_of (node G) k = Some a \<longrightarrow> (\<exists>t d. a = [(''type'', t), (''description'', d)]))"

definition typed_edges :: "graph \<Rightarrow> bool" where
  "typed_edges G \<longleftrightarrow>
     (\<forall>u v a. edge_data G u v = Some a \<longrightarrow> (\<exists>r d. a = [(''relationship'', r), (''description'', d)]))"

text \<open>The keys that stand before \<open>x\<close> in a list of keys.\<close>

definition before :: "key \<Rightarrow> key list \<Rightarrow> key set" where
  "before x ks = set (takeWhile (\<lambda>k. k \<noteq> x) ks)"

section \<open>Concrete collaborators and responses\<close>

text \<open>
  A model that answers every prompt with the same text, and one whose call raises.
\<close>

definition reply :: "string \<Rightarrow> string \<Rightarrow> exn + string" where
  "reply response prompt = Inr response"

fun raising :: "exn \<Rightarrow> string \<Rightarrow> exn + string" where
  "raising e prompt = Inl e"

definition sample_response :: string where
  \<open>sample_response = ''Sure! Here is the result: {"entities":[],"relationships":[]} Hope that helps!''\<close>

definition sample_json :: string where
  \<open>sample_json = ''{"entities":[],"relationships":[]}''\<close>

text \<open>
  The same response between white space; a response without braces between form feeds,
  which \<^verbatim>\<open>strip\<close> removes and JSON does not allow; two objects side by side; a response
  that is no JSON.
\<close>

definition padded_response :: string where
  "padded_response = CHR 0x0A # '' '' @ sample_response @ '' '' @ [CHR 0x0A]"

definition form_feed_response :: string where
  "form_feed_response = CHR 0x0C # ''[1, 2]'' @ [CHR 0x0C]"

definition two_objects_response :: string where
  \<open>two_objects_response = ''{"a": 1} {"b": 2}''\<close>

definition prose_response :: string where
  "prose_response = ''not json at all''"

definition array_response :: string where
  "array_response = ''[]''"

definition null_entities_response :: string where
  \<open>null_entities_response = ''{"entities": null}''\<close>

text \<open>
  The library's message for a text whose first character starts no value, and a behaviour
  beyond the fragment of \<open>decode\<close>, for the concrete responses, none of which lies there.
\<close>

definition expecting_value :: "string \<Rightarrow> string" where
  "expecting_value s = ''Expecting value: line 1 column 1 (char 0)''"

definition not_decoded :: "string \<Rightarrow> exn + json" where
  "not_decoded s = Inl (ValueError ''not decoded'')"

definition trailing_comma_response :: string where
  \<open>trailing_comma_response = ''{"entities": [], "relationships": [],}''\<close>

definition empty_object_response :: string where
  \<open>empty_object_response = ''{}''\<close>

text \<open>A record with the fields \<^verbatim>\<open>entities\<close> and \<^verbatim>\<open>relationships\<close>, both arrays.\<close>

fun has_both_arrays :: "json \<Rightarrow> bool" where
  "has_both_arrays (JObj kvs) =
     (case map_of kvs ''entities'' of
        Some (JArr es) \<Rightarrow>
          (case map_of kvs ''relationships'' of
             Some (JArr rs) \<Rightarrow> True
           | _ \<Rightarrow> False)
      | _ \<Rightarrow> False)"
| "has_both_arrays v = False"

text \<open>
  A record with a repeated entity name, two relationships between the same two nodes, a
  loop, a relationship to a name that is no entity and one without a source; the graph
  \<^verbatim>\<open>create_graph\<close> builds from it; a record whose entity has the empty name, and one whose
  entity has no name.
\<close>

definition sample_entities :: "json list" where
  "sample_entities =
     [JObj [(''name'', JStr ''A'')],
      JObj [(''name'', JStr ''B''), (''type'', JStr ''person'')],
      JObj [(''name'', JStr ''A''), (''description'', JStr ''again'')]]"

definition sample_relationships :: "json list" where
  "sample_relationships =
     [JObj [(''source'', JStr ''A''), (''target'', JStr ''B'')],
      JObj [(''source'', JStr ''B''), (''target'', JStr ''A''), (''relationship'', JStr ''knows'')],
      JObj [(''source'', JStr ''B''), (''target'', JStr ''B'')],
      JObj [(''source'', JStr ''C''), (''target'', JStr ''B'')],
      JObj [(''target'', JStr ''B'')]]"

definition sample_data :: json where
  "sample_data =
     JObj [(''entities'', JArr sample_entities), (''relationships'', JArr sample_relationships)]"

definition sample_graph :: graph where
  "sample_graph =
     \<lparr>node =
        [(KStr ''A'', [(''type'', JStr ''unknown''), (''description'', JStr ''again'')]),
         (KStr ''B'', [(''type'', JStr ''person''), (''description'', JStr [])])],
      adj =
        [(KStr ''A'',
          [(KStr ''B'', [(''relationship'', JStr ''knows''), (''description'', JStr [])])]),
         (KStr ''B'',
          [(KStr ''A'', [(''relationship'', JStr ''knows''), (''description'', JStr [])]),
           (KStr ''B'', [(''relationship'', JStr ''related_to''), (''description'', JStr [])])])]\<rparr>"



definition unnamed_data :: json where
  "unnamed_data = JObj [(''entities'', JArr [JObj [(''name'', JStr []), (''type'', JStr ''person'')]])]"

definition missing_name_data :: json where
  "missing_name_data =
     JObj [(''entities'', JArr [JObj [(''type'', JStr ''person''), (''description'', JStr ''no name'')]]),
           (''relationships'', JArr [])]"

section \<open>The greedy match\<close>

lemma last_close_Cons:
  "last_close (c # cs) = (if CHR ''}'' \<in> set cs then Suc (last_close cs)
                          else if c = CHR ''}'' then 1 else 0)"
proof (cases "CHR ''}'' \<in> set cs")
  case True
  then have "takeWhile (\<lambda>c. c \<noteq> CHR ''}'') (rev cs @ [c]) = takeWhile (\<lambda>c. c \<noteq> CHR ''}'') (rev cs)"
    by (intro takeWhile_append1[where x="CHR ''}''"]) auto
  moreover have "length (takeWhile (\<lambda>c. c \<noteq> CHR ''}'') (rev cs)) \<le> length cs"
    using length_takeWhile_le[of _ "rev cs"] by simp
  ultimately show ?thesis using True by (simp add: last_close_def Suc_diff_le)
next
  case False
  then have "takeWhile (\<lambda>c. c \<noteq> CHR ''}'') (rev cs @ [c]) = rev cs @ takeWhile (\<lambda>c. c \<noteq> CHR ''}'') [c]"
    by (intro takeWhile_append2) auto
  then show ?thesis using False by (simp add: last_close_def)
qed

lemma last_close_pos: "CHR ''}'' \<in> set s \<Longrightarrow> 0 < last_close s"
  by (induction s) (auto simp: last_close_Cons)

lemma match_rest_eq:
  "match_rest cs = (if CHR ''}'' \<in> set cs then Some (take (last_close cs) cs) else None)"
  by (induction cs) (auto simp: last_close_Cons)

lemma re_search_eq: "re_search s = greedy_braces s"
proof (induction s)
  case Nil
  show ?case by (simp add: greedy_braces_def)
next
  case (Cons c cs)
  show ?case
    using last_close_pos[of cs]
    by (auto simp: match_rest_eq greedy_braces_def first_open_def last_close_Cons Cons.IH)
qed

section \<open>The extractor\<close>

lemma strip_decomposition:
  "\<exists>pre post. s = pre @ strip s @ post \<and> list_all isspace pre \<and> list_all isspace post
      \<and> (strip s = [] \<or> \<not> isspace (hd (strip s)) \<and> \<not> isspace (last (strip s)))"
proof -
  define t where "t = dropWhile isspace s"
  define pre where "pre = takeWhile isspace s"
  define post where "post = rev (takeWhile isspace (rev t))"
  have st: "strip s = rev (dropWhile isspace (rev t))"
    by (simp add: strip_def t_def)
  have "t = rev (dropWhile isspace (rev t)) @ rev (takeWhile isspace (rev t))"
    by (metis rev_append rev_rev_ident takeWhile_dropWhile_id)
  then have tt: "t = strip s @ post"
    by (simp only: st post_def)
  have "s = pre @ t"
    by (simp add: pre_def t_def)
  then have s: "s = pre @ strip s @ post"
    using tt by simp
  have p1: "list_all isspace pre"
    unfolding pre_def list_all_iff using set_takeWhileD by fastforce
  have p2: "list_all isspace post"
    unfolding post_def list_all_iff using set_takeWhileD by fastforce
  have ends: "\<not> isspace (hd (strip s)) \<and> \<not> isspace (last (strip s))" if ne: "strip s \<noteq> []"
  proof
    from ne tt have "hd t = hd (strip s)" and "t \<noteq> []"
      by (metis hd_append2, metis append_is_Nil_conv)
    then show "\<not> isspace (hd (strip s))"
      using hd_dropWhile[of isspace s] by (simp add: t_def)
  next
    from ne have d: "dropWhile isspace (rev t) \<noteq> []"
      by (simp add: st)
    then have "last (strip s) = hd (dropWhile isspace (rev t))"
      by (simp add: st last_rev)
    then show "\<not> isspace (last (strip s))"
      using hd_dropWhile[OF d] by simp
  qed
  from s p1 p2 ends show ?thesis by blast
qed

lemma match_rest_last:
  assumes "CHR ''}'' \<notin> set b"
  shows "match_rest (m @ CHR ''}'' # b) = Some (m @ [CHR ''}''])"
proof -
  from assms have "match_rest b = None"
    by (simp add: match_rest_eq)
  then show ?thesis
    by (induction m) simp_all
qed

lemma greedy_braces_cut:
  assumes "CHR ''{'' \<notin> set a" and "CHR ''}'' \<notin> set b"
  shows "greedy_braces (a @ CHR ''{'' # m @ CHR ''}'' # b) = Some (CHR ''{'' # m @ [CHR ''}''])"
proof -
  from assms(1) have "re_search (a @ CHR ''{'' # m @ CHR ''}'' # b) = Some (CHR ''{'' # m @ [CHR ''}''])"
    by (induction a) (auto simp add: match_rest_last[OF assms(2)])
  then show ?thesis by (simp add: re_search_eq)
qed

lemma greedy_braces_none:
  "(\<forall>a b. t = a @ CHR ''{'' # b \<longrightarrow> CHR ''}'' \<notin> set b) \<Longrightarrow> greedy_braces t = None"
proof -
  have "(\<forall>a b. t = a @ CHR ''{'' # b \<longrightarrow> CHR ''}'' \<notin> set b) \<Longrightarrow> re_search t = None"
  proof (induction t)
    case Nil
    show ?case by simp
  next
    case (Cons c cs)
    have "\<forall>a b. cs = a @ CHR ''{'' # b \<longrightarrow> CHR ''}'' \<notin> set b"
    proof (intro allI impI)
      fix a b
      assume "cs = a @ CHR ''{'' # b"
      then have "c # cs = (c # a) @ CHR ''{'' # b" by simp
      with Cons.prems show "CHR ''}'' \<notin> set b" by blast
    qed
    then have r: "re_search cs = None" by (rule Cons.IH)
    show ?case
    proof (cases "c = CHR ''{''")
      case True
      then have "c # cs = [] @ CHR ''{'' # cs" by simp
      with Cons.prems have "CHR ''}'' \<notin> set cs" by blast
      then show ?thesis using True r by (simp add: match_rest_eq)
    next
      case False
      then show ?thesis using r by simp
    qed
  qed
  then show "(\<forall>a b. t = a @ CHR ''{'' # b \<longrightarrow> CHR ''}'' \<notin> set b) \<Longrightarrow> greedy_braces t = None"
    by (simp add: re_search_eq)
qed

lemma extract_reply:
  "extract_entities_relationships (reply response) loads text =
     (case loads (json_source response) of Inl e \<Rightarrow> handle_exn e | Inr v \<Rightarrow> Inr (v, []))"
  by (simp add: extract_entities_relationships_def reply_def)

lemma sample_source: "json_source sample_response = sample_json"
  by code_simp

lemma sample_greedy: "greedy_braces (strip sample_response) = Some sample_json"
  by code_simp

lemma sample_decode: "decode sample_json = Good empty_result"
  by code_simp

lemma padded_source: "json_source padded_response = sample_json"
  by code_simp

lemma form_feed_source: "json_source form_feed_response = ''[1, 2]''"
  by code_simp

lemma form_feed_decode: "decode ''[1, 2]'' = Good (JArr [JNum 1, JNum 2])"
  by code_simp

lemma form_feed_unstripped: "decode form_feed_response = Malformed"
  by code_simp

lemma two_objects_source: "json_source two_objects_response = two_objects_response"
  by code_simp

lemma two_objects_decode: "decode two_objects_response = Malformed"
  by code_simp

lemma prose_source: "json_source prose_response = prose_response"
  by code_simp

lemma prose_decode: "decode prose_response = Malformed"
  by code_simp

lemma trailing_comma_source: "json_source trailing_comma_response = trailing_comma_response"
  by code_simp

lemma trailing_comma_decode: "decode trailing_comma_response = Malformed"
  by code_simp

lemma array_source: "json_source array_response = array_response"
  by code_simp

lemma array_decode: "decode array_response = Good (JArr [])"
  by code_simp

lemma empty_object_source: "json_source empty_object_response = empty_object_response"
  by code_simp

lemma empty_object_decode: "decode empty_object_response = Good (JObj [])"
  by code_simp

text \<open>
  C2. Every response splits into white space, a text \<open>t\<close> that neither starts nor ends
  with white space, and white space, and the text handed to the decoder is \<open>t\<close> cut from
  its first opening brace to its last closing brace, or all of \<open>t\<close> when it has no such
  cut. The cut is greedy and counts no braces: whatever stands between the first opening
  brace and the last closing brace behind it is taken, and there is no cut exactly when no
  closing brace stands behind an opening brace. The response of the specification, a JSON
  object wrapped in commentary, yields that object and no message, also between white
  space; a response without braces is decoded as a whole, after the form feeds around it
  are stripped, which the decoder alone would refuse; two objects side by side are taken
  as one text, which is no JSON.
\<close>

theorem greedy_extraction:
  "(generate_content (create_extraction_prompt text) = Inr response \<longrightarrow>
      (\<exists>pre t post. response = pre @ t @ post \<and> list_all isspace pre \<and> list_all isspace post
          \<and> (t = [] \<or> \<not> isspace (hd t) \<and> \<not> isspace (last t))
          \<and> extract_entities_relationships generate_content loads text =
              (case loads (case greedy_braces t of Some json_str \<Rightarrow> json_str | None \<Rightarrow> t) of
                 Inl e \<Rightarrow> handle_exn e
               | Inr v \<Rightarrow> Inr (v, []))))
   \<and> (CHR ''{'' \<notin> set a \<and> CHR ''}'' \<notin> set b \<longrightarrow>
        greedy_braces (a @ CHR ''{'' # m @ CHR ''}'' # b) = Some (CHR ''{'' # m @ [CHR ''}'']))
   \<and> ((\<forall>a b. s = a @ CHR ''{'' # b \<longrightarrow> CHR ''}'' \<notin> set b) \<longrightarrow> greedy_braces s = None)
   \<and> extract_entities_relationships (reply sample_response) (json_loads message beyond) text =
        Inr (JObj [(''entities'', JArr []), (''relationships'', JArr [])], [])
   \<and> extract_entities_relationships (reply padded_response) (json_loads message beyond) text =
        Inr (JObj [(''entities'', JArr []), (''relationships'', JArr [])], [])
   \<and> extract_entities_relationships (reply form_feed_response) (json_loads message beyond) text =
        Inr (JArr [JNum 1, JNum 2], [])
   \<and> json_loads message beyond form_feed_response =
        Inl (JSONDecodeError (message form_feed_response))
   \<and> extract_entities_relationships (reply two_objects_response) (json_loads message beyond) text =
        Inr (JObj [(''entities'', JArr []), (''relationships'', JArr [])],
             [''Error parsing AI response: '' @ message two_objects_response])"
proof (intro conjI impI)
  assume g: "generate_content (create_extraction_prompt text) = Inr response"
  obtain pre post where d: "response = pre @ strip response @ post" "list_all isspace pre"
      "list_all isspace post"
      "strip response = [] \<or> \<not> isspace (hd (strip response)) \<and> \<not> isspace (last (strip response))"
    using strip_decomposition[of response] by blast
  have "extract_entities_relationships generate_content loads text =
          (case loads (case greedy_braces (strip response) of
                         Some json_str \<Rightarrow> json_str
                       | None \<Rightarrow> strip response) of
             Inl e \<Rightarrow> handle_exn e
           | Inr v \<Rightarrow> Inr (v, []))"
    using g by (simp add: extract_entities_relationships_def json_source_def re_search_eq Let_def)
  with d show "\<exists>pre t post. response = pre @ t @ post \<and> list_all isspace pre \<and> list_all isspace post
          \<and> (t = [] \<or> \<not> isspace (hd t) \<and> \<not> isspace (last t))
          \<and> extract_entities_relationships generate_content loads text =
              (case loads (case greedy_braces t of Some json_str \<Rightarrow> json_str | None \<Rightarrow> t) of
                 Inl e \<Rightarrow> handle_exn e
               | Inr v \<Rightarrow> Inr (v, []))"
    by blast
next
  assume "CHR ''{'' \<notin> set a \<and> CHR ''}'' \<notin> set b"
  then show "greedy_braces (a @ CHR ''{'' # m @ CHR ''}'' # b) = Some (CHR ''{'' # m @ [CHR ''}''])"
    by (simp add: greedy_braces_cut)
next
  assume "\<forall>a b. s = a @ CHR ''{'' # b \<longrightarrow> CHR ''}'' \<notin> set b"
  then show "greedy_braces s = None"
    by (rule greedy_braces_none)
next
  show "extract_entities_relationships (reply sample_response) (json_loads message beyond) text =
        Inr (JObj [(''entities'', JArr []), (''relationships'', JArr [])], [])"
    by (simp add: extract_reply sample_source json_loads_def sample_decode empty_result_def)
next
  show "extract_entities_relationships (reply padded_response) (json_loads message beyond) text =
        Inr (JObj [(''entities'', JArr []), (''relationships'', JArr [])], [])"
    by (simp add: extract_reply padded_source json_loads_def sample_decode empty_result_def)
next
  show "extract_entities_relationships (reply form_feed_response) (json_loads message beyond) text =
        Inr (JArr [JNum 1, JNum 2], [])"
    by (simp add: extract_reply form_feed_source json_loads_def form_feed_decode)
next
  show "json_loads message beyond form_feed_response =
        Inl (JSONDecodeError (message form_feed_response))"
    by (simp add: json_loads_def form_feed_unstripped)
next
  show "extract_entities_relationships (reply two_objects_response) (json_loads message beyond) text =
        Inr (JObj [(''entities'', JArr []), (''relationships'', JArr [])],
             [''Error parsing AI response: '' @ message two_objects_response])"
    by (simp add: extract_reply two_objects_source json_loads_def two_objects_decode
        empty_result_def)
qed

theorem greedy_extraction_witness:
  "reply padded_response (create_extraction_prompt ''Ada met Bob.'') = Inr padded_response
   \<and> (\<exists>pre t post. padded_response = pre @ t @ post \<and> list_all isspace pre \<and> list_all isspace post
         \<and> (t = [] \<or> \<not> isspace (hd t) \<and> \<not> isspace (last t))
         \<and> extract_entities_relationships (reply padded_response)
              (json_loads expecting_value not_decoded) ''Ada met Bob.'' =
             (case json_loads expecting_value not_decoded
                     (case greedy_braces t of Some json_str \<Rightarrow> json_str | None \<Rightarrow> t) of
                Inl e \<Rightarrow> handle_exn e
              | Inr v \<Rightarrow> Inr (v, [])))
   \<and> extract_entities_relationships (reply padded_response)
        (json_loads expecting_value not_decoded) ''Ada met Bob.'' =
       Inr (JObj [(''entities'', JArr []), (''relationships'', JArr [])], [])
   \<and> CHR ''{'' \<notin> set ''see ''
   \<and> CHR ''}'' \<notin> set '' ok''
   \<and> greedy_braces (''see '' @ CHR ''{'' # ''a} and {b'' @ CHR ''}'' # '' ok'') =
       Some (CHR ''{'' # ''a} and {b'' @ [CHR ''}''])
   \<and> greedy_braces ''[1, 2]'' = None
   \<and> extract_entities_relationships (reply form_feed_response)
        (json_loads expecting_value not_decoded) ''Ada met Bob.'' =
       Inr (JArr [JNum 1, JNum 2], [])
   \<and> json_loads expecting_value not_decoded form_feed_response =
       Inl (JSONDecodeError ''Expecting value: line 1 column 1 (char 0)'')"
proof -
  note t = greedy_extraction[of "reply padded_response" "''Ada met Bob.''" padded_response
      "json_loads expecting_value not_decoded" "''see ''" "'' ok''"
      "''a} and {b''" "''[1, 2]''" expecting_value not_decoded]
  have g: "reply padded_response (create_extraction_prompt ''Ada met Bob.'') = Inr padded_response"
    by (simp add: reply_def)
  have a: "CHR ''{'' \<notin> set ''see ''"
    by simp
  have b: "CHR ''}'' \<notin> set '' ok''"
    by simp
  have n: "\<forall>a b. ''[1, 2]'' = a @ CHR ''{'' # b \<longrightarrow> CHR ''}'' \<notin> set b"
  proof (intro allI impI)
    fix a b
    assume "''[1, 2]'' = a @ CHR ''{'' # b"
    then have "CHR ''{'' \<in> set ''[1, 2]''"
      by (metis in_set_conv_decomp)
    then show "CHR ''}'' \<notin> set b" by simp
  qed
  from t g have x: "\<exists>pre t post. padded_response = pre @ t @ post \<and> list_all isspace pre
         \<and> list_all isspace post
         \<and> (t = [] \<or> \<not> isspace (hd t) \<and> \<not> isspace (last t))
         \<and> extract_entities_relationships (reply padded_response)
              (json_loads expecting_value not_decoded) ''Ada met Bob.'' =
             (case json_loads expecting_value not_decoded
                     (case greedy_braces t of Some json_str \<Rightarrow> json_str | None \<Rightarrow> t) of
                Inl e \<Rightarrow> handle_exn e
              | Inr v \<Rightarrow> Inr (v, []))"
    by blast
  from t a b have c: "greedy_braces (''see '' @ CHR ''{'' # ''a} and {b'' @ CHR ''}'' # '' ok'') =
       Some (CHR ''{'' # ''a} and {b'' @ [CHR ''}''])"
    by blast
  from t n have d: "greedy_braces ''[1, 2]'' = None"
    by blast
  from t have e: "extract_entities_relationships (reply padded_response)
        (json_loads expecting_value not_decoded) ''Ada met Bob.'' =
       Inr (JObj [(''entities'', JArr []), (''relationships'', JArr [])], [])"
    by blast
  from t have f: "extract_entities_relationships (reply form_feed_response)
        (json_loads expecting_value not_decoded) ''Ada met Bob.'' =
       Inr (JArr [JNum 1, JNum 2], [])"
    by blast
  from t have "json_loads expecting_value not_decoded form_feed_response =
       Inl (JSONDecodeError (expecting_value form_feed_response))"
    by blast
  then have h: "json_loads expecting_value not_decoded form_feed_response =
       Inl (JSONDecodeError ''Expecting value: line 1 column 1 (char 0)'')"
    by (simp add: expecting_value_def)
  from g x e a b c d f h show ?thesis by blast
qed

text \<open>
  C3, as stated, fails. The handlers choose the message by the class of the exception and
  not by the step that raised it: a call of the model that raises \<^verbatim>\<open>JSONDecodeError\<close> is
  reported as a parse error though nothing was parsed, and an exception that does not
  derive from \<^verbatim>\<open>Exception\<close>, such as \<^verbatim>\<open>KeyboardInterrupt\<close>, passes both handlers and
  reaches the caller.
\<close>

theorem call_failure_reported_as_parse_error:
  "extract_entities_relationships (raising (JSONDecodeError ''boom''))
       (json_loads expecting_value not_decoded) ''Ada met Bob.'' =
     Inr (JObj [(''entities'', JArr []), (''relationships'', JArr [])],
          [''Error parsing AI response: boom''])
   \<and> extract_entities_relationships (raising (BaseException ''KeyboardInterrupt''))
       (json_loads expecting_value not_decoded) ''Ada met Bob.'' =
     Inl (BaseException ''KeyboardInterrupt'')"
  by (simp add: extract_entities_relationships_def empty_result_def)

text \<open>
  C3, amended. Whichever step fails, the call of the model or the decoding, the outcome
  depends on the class of the exception alone: \<^verbatim>\<open>JSONDecodeError\<close>, which is what
  \<^verbatim>\<open>json.loads\<close> raises on malformed JSON, gives the record with two empty arrays and the
  parse-error message with the text of the exception; every other class deriving from
  \<^verbatim>\<open>Exception\<close> gives the same record and the API-error message; an exception outside
  \<^verbatim>\<open>Exception\<close> propagates. The two messages never coincide. A response that is no JSON
  and one with a trailing comma are reported as parse errors with the library's message.
\<close>

theorem failures_are_reported:
  "((generate_content (create_extraction_prompt text) = Inl e \<or>
      (generate_content (create_extraction_prompt text) = Inr response \<and>
       loads (json_source response) = Inl e)) \<longrightarrow>
       extract_entities_relationships generate_content loads text =
         (case e of
            JSONDecodeError m' \<Rightarrow>
              Inr (JObj [(''entities'', JArr []), (''relationships'', JArr [])],
                   [''Error parsing AI response: '' @ m'])
          | BaseException m' \<Rightarrow> Inl e
          | _ \<Rightarrow>
              Inr (JObj [(''entities'', JArr []), (''relationships'', JArr [])],
                   [''Error calling Gemini API: '' @ str_exn e])))
   \<and> ''Error parsing AI response: '' @ m \<noteq> ''Error calling Gemini API: '' @ m''
   \<and> extract_entities_relationships (reply prose_response) (json_loads message beyond) text =
       Inr (JObj [(''entities'', JArr []), (''relationships'', JArr [])],
            [''Error parsing AI response: '' @ message prose_response])
   \<and> extract_entities_relationships (reply trailing_comma_response) (json_loads message beyond) text =
       Inr (JObj [(''entities'', JArr []), (''relationships'', JArr [])],
            [''Error parsing AI response: '' @ message trailing_comma_response])"
proof (intro conjI impI)
  assume "generate_content (create_extraction_prompt text) = Inl e \<or>
      (generate_content (create_extraction_prompt text) = Inr response \<and>
       loads (json_source response) = Inl e)"
  then show "extract_entities_relationships generate_content loads text =
         (case e of
            JSONDecodeError m' \<Rightarrow>
              Inr (JObj [(''entities'', JArr []), (''relationships'', JArr [])],
                   [''Error parsing AI response: '' @ m'])
          | BaseException m' \<Rightarrow> Inl e
          | _ \<Rightarrow>
              Inr (JObj [(''entities'', JArr []), (''relationships'', JArr [])],
                   [''Error calling Gemini API: '' @ str_exn e]))"
    by (cases e) (auto simp add: extract_entities_relationships_def empty_result_def)
next
  show "''Error parsing AI response: '' @ m \<noteq> ''Error calling Gemini API: '' @ m''"
    by simp
next
  show "extract_entities_relationships (reply prose_response) (json_loads message beyond) text =
       Inr (JObj [(''entities'', JArr []), (''relationships'', JArr [])],
            [''Error parsing AI response: '' @ message prose_response])"
    by (simp add: extract_reply prose_source json_loads_def prose_decode empty_result_def)
next
  show "extract_entities_relationships (reply trailing_comma_response) (json_loads message beyond) text =
       Inr (JObj [(''entities'', JArr []), (''relationships'', JArr [])],
            [''Error parsing AI response: '' @ message trailing_comma_response])"
    by (simp add: extract_reply trailing_comma_source json_loads_def trailing_comma_decode
        empty_result_def)
qed

theorem failures_are_reported_witness:
  "reply prose_response (create_extraction_prompt ''Ada met Bob.'') = Inr prose_response
   \<and> json_loads expecting_value not_decoded (json_source prose_response) =
       Inl (JSONDecodeError ''Expecting value: line 1 column 1 (char 0)'')
   \<and> extract_entities_relationships (reply prose_response)
        (json_loads expecting_value not_decoded) ''Ada met Bob.'' =
       Inr (JObj [(''entities'', JArr []), (''relationships'', JArr [])],
            [''Error parsing AI response: Expecting value: line 1 column 1 (char 0)''])
   \<and> raising (OtherException ''quota exceeded'') (create_extraction_prompt ''Ada met Bob.'') =
       Inl (OtherException ''quota exceeded'')
   \<and> extract_entities_relationships (raising (OtherException ''quota exceeded''))
        (json_loads expecting_value not_decoded) ''Ada met Bob.'' =
       Inr (JObj [(''entities'', JArr []), (''relationships'', JArr [])],
            [''Error calling Gemini API: quota exceeded''])"
proof -
  have g: "reply prose_response (create_extraction_prompt ''Ada met Bob.'') = Inr prose_response"
    by (simp add: reply_def)
  have l: "json_loads expecting_value not_decoded (json_source prose_response) =
       Inl (JSONDecodeError ''Expecting value: line 1 column 1 (char 0)'')"
    by (simp add: prose_source json_loads_def prose_decode expecting_value_def)
  have r: "raising (OtherException ''quota exceeded'') (create_extraction_prompt ''Ada met Bob.'') =
       Inl (OtherException ''quota exceeded'')"
    by simp
  from failures_are_reported[of "reply prose_response" "''Ada met Bob.''"
      "JSONDecodeError ''Expecting value: line 1 column 1 (char 0)''" prose_response
      "json_loads expecting_value not_decoded" "[]" "[]" expecting_value not_decoded] g l
  have a: "extract_entities_relationships (reply prose_response)
        (json_loads expecting_value not_decoded) ''Ada met Bob.'' =
       Inr (JObj [(''entities'', JArr []), (''relationships'', JArr [])],
            [''Error parsing AI response: Expecting value: line 1 column 1 (char 0)''])"
    by simp
  from failures_are_reported[of "raising (OtherException ''quota exceeded'')" "''Ada met Bob.''"
      "OtherException ''quota exceeded''" "[]" "json_loads expecting_value not_decoded" "[]" "[]"
      expecting_value not_decoded] r
  have b: "extract_entities_relationships (raising (OtherException ''quota exceeded''))
        (json_loads expecting_value not_decoded) ''Ada met Bob.'' =
       Inr (JObj [(''entities'', JArr []), (''relationships'', JArr [])],
            [''Error calling Gemini API: quota exceeded''])"
    by simp
  from g l a r b show ?thesis by blast
qed

text \<open>
  C4. The extractor returns what \<^verbatim>\<open>json.loads\<close> returns and checks neither that it is a
  dictionary nor that it has the two fields. The response \<^verbatim>\<open>[]\<close> is returned as the empty
  list, on which the caller's \<^verbatim>\<open>extracted_data.get("entities")\<close> and \<^verbatim>\<open>create_graph\<close>
  raise \<^verbatim>\<open>AttributeError\<close>; the response \<^verbatim>\<open>{}\<close> is returned as the empty dictionary,
  with neither field, and \<^verbatim>\<open>{"entities": null}\<close> with a field that is no array.
\<close>

theorem decoded_value_not_validated:
  "extract_entities_relationships (reply array_response) (json_loads message beyond) text =
     Inr (JArr [], [])
   \<and> \<not> has_both_arrays (JArr [])
   \<and> py_get (JArr []) ''entities'' JNull = Inl (AttributeError ''get'')
   \<and> create_graph (JArr []) = Inl (AttributeError ''get'')
   \<and> extract_entities_relationships (reply empty_object_response) (json_loads message beyond) text =
       Inr (JObj [], [])
   \<and> \<not> has_both_arrays (JObj [])
   \<and> extract_entities_relationships (reply null_entities_response) (json_loads message beyond) text =
       Inr (JObj [(''entities'', JNull)], [])
   \<and> \<not> has_both_arrays (JObj [(''entities'', JNull)])"
proof (intro conjI)
  show "extract_entities_relationships (reply array_response) (json_loads message beyond) text =
     Inr (JArr [], [])"
    by (simp add: extract_reply array_source json_loads_def array_decode)
next
  show "extract_entities_relationships (reply empty_object_response) (json_loads message beyond) text =
       Inr (JObj [], [])"
    by (simp add: extract_reply empty_object_source json_loads_def empty_object_decode)
next
  have "json_source null_entities_response = null_entities_response"
    by code_simp
  moreover have "decode null_entities_response = Good (JObj [(''entities'', JNull)])"
    by code_simp
  ultimately show "extract_entities_relationships (reply null_entities_response)
        (json_loads message beyond) text = Inr (JObj [(''entities'', JNull)], [])"
    by (simp add: extract_reply json_loads_def)
next
  show "py_get (JArr []) ''entities'' JNull = Inl (AttributeError ''get'')"
    by simp
next
  show "create_graph (JArr []) = Inl (AttributeError ''get'')"
    by code_simp
qed simp_all

section \<open>The two loops of the assembler\<close>

lemma for_each_append:
  "for_each body (xs @ ys) G =
     (case for_each body xs G of Inl e \<Rightarrow> Inl e | Inr G' \<Rightarrow> for_each body ys G')"
  by (induction xs arbitrary: G) (auto split: sum.splits)

lemma fresh_attrs:
  "a \<noteq> b \<Longrightarrow> dict_update [] [(a, x), (b, y)] = [(a, x), (b, y)]"
  by (simp add: dict_update_def)

lemma overwritten_attrs:
  "a \<noteq> b \<Longrightarrow> dict_update [(a, x0), (b, y0)] [(a, x), (b, y)] = [(a, x), (b, y)]"
  by (simp add: dict_update_def)

lemma map_of_None_keys: "map_of xs k = None \<longleftrightarrow> k \<notin> set (map fst xs)"
  by (simp add: map_of_eq_None_iff)

lemma add_node_result:
  assumes "add_node nm attr G = Inr G'"
  shows "\<exists>k. key_of nm = Some k \<and> (k \<noteq> KNone \<or> map_of (node G) k \<noteq> None) \<and>
    node G' = AList.update k (dict_update (case map_of (node G) k of None \<Rightarrow> [] | Some a \<Rightarrow> a) attr) (node G) \<and>
    adj G' = (case map_of (node G) k of None \<Rightarrow> AList.update k [] (adj G) | Some a \<Rightarrow> adj G)"
  using assms
  by (auto simp: add_node_def split: option.splits if_splits)

lemma add_entity_result:
  assumes "add_entity e G = Inr G'"
  obtains kvs nm where "e = JObj kvs" "map_of kvs ''name'' = Some nm"
    "add_node nm [(''type'', dict_get kvs ''type'' (JStr ''unknown'')),
                  (''description'', dict_get kvs ''description'' (JStr []))] G = Inr G'"
proof (cases e)
  case (JObj kvs)
  with assms show ?thesis
    by (auto simp: add_entity_def split: option.splits sum.splits intro: that)
qed (use assms in \<open>simp_all add: add_entity_def\<close>)

lemma edge_data_new_row:
  "map_of rows k = None \<Longrightarrow>
   (case map_of (AList.update k [] rows) u of None \<Rightarrow> None | Some nbrs \<Rightarrow> map_of nbrs v) =
   (case map_of rows u of None \<Rightarrow> None | Some nbrs \<Rightarrow> map_of nbrs v)"
  by (simp add: update_conv')

lemma add_node_ok:
  assumes "add_node nm attr G = Inr G'" and "graph_ok G"
  shows "graph_ok G'" and "edge_data G' u v = edge_data G u v"
    and "\<exists>k. key_of nm = Some k \<and> k \<noteq> KNone \<and>
          map fst (node G') = (if k \<in> set (map fst (node G)) then map fst (node G) else map fst (node G) @ [k])"
proof -
  from assms(1) obtain k where k: "key_of nm = Some k" "k \<noteq> KNone \<or> map_of (node G) k \<noteq> None"
    and n: "node G' = AList.update k (dict_update (case map_of (node G) k of None \<Rightarrow> [] | Some a \<Rightarrow> a) attr) (node G)"
    and a: "adj G' = (case map_of (node G) k of None \<Rightarrow> AList.update k [] (adj G) | Some a \<Rightarrow> adj G)"
    using add_node_result[OF assms(1)] by blast
  from assms(2) have d: "distinct (map fst (node G))" and e: "map fst (adj G) = map fst (node G)"
    and kn: "KNone \<notin> set (map fst (node G))" and sy: "\<And>u v. edge_data G u v = edge_data G v u"
    and di: "\<And>u nbrs. map_of (adj G) u = Some nbrs \<Longrightarrow> distinct (map fst nbrs)"
    unfolding graph_ok_def by blast+
  have kk: "k \<noteq> KNone" using k(2) kn by (auto simp: map_of_None_keys)
  have keys: "map fst (node G') = (if k \<in> set (map fst (node G)) then map fst (node G) else map fst (node G) @ [k])"
    by (simp add: n update_keys)
  have akeys: "map fst (adj G') = map fst (node G')"
  proof (cases "map_of (node G) k")
    case None
    then have "k \<notin> set (map fst (node G))" by (simp add: map_of_None_keys)
    then show ?thesis using None e by (simp add: a n update_keys)
  next
    case (Some x)
    then have "k \<in> set (map fst (node G))" using map_of_None_keys[of "node G" k] by simp
    then show ?thesis using Some e by (simp add: a n update_keys)
  qed
  show ed: "edge_data G' u v = edge_data G u v" for u v
  proof (cases "map_of (node G) k")
    case None
    then have "map_of (adj G) k = None" using e by (simp add: map_of_None_keys)
    then show ?thesis using None by (simp add: edge_data_def a edge_data_new_row)
  next
    case (Some x)
    then show ?thesis by (simp add: edge_data_def a)
  qed
  have di': "distinct (map fst nbrs)" if "map_of (adj G') u = Some nbrs" for u nbrs
  proof (cases "map_of (node G) k")
    case None
    with that have "(if u = k then Some [] else map_of (adj G) u) = Some nbrs"
      by (simp add: a update_conv')
    then show ?thesis using di[of u nbrs] by (cases "u = k") auto
  next
    case (Some x)
    with that show ?thesis using di[of u nbrs] by (simp add: a)
  qed
  have d': "distinct (map fst (node G'))" using d by (simp add: n distinct_update)
  have kn': "KNone \<notin> set (map fst (node G'))" using kn kk keys by auto
  have sy': "edge_data G' x y = edge_data G' y x" for x y
    using ed sy by simp
  show "graph_ok G'"
    unfolding graph_ok_def using d' akeys kn' di' sy' by blast
  show "\<exists>k. key_of nm = Some k \<and> k \<noteq> KNone \<and>
          map fst (node G') = (if k \<in> set (map fst (node G)) then map fst (node G) else map fst (node G) @ [k])"
    using k(1) kk keys by blast
qed

lemma add_entity_ok:
  assumes "add_entity e G = Inr G'" and "graph_ok G"
  shows "graph_ok G'" and "edge_data G' u v = edge_data G u v"
    and "\<exists>k. name_key e = Some k \<and> k \<noteq> KNone \<and>
          map fst (node G') = (if k \<in> set (map fst (node G)) then map fst (node G) else map fst (node G) @ [k])"
proof -
  from assms(1) obtain kvs nm where e: "e = JObj kvs" and nm: "map_of kvs ''name'' = Some nm"
    and an: "add_node nm [(''type'', dict_get kvs ''type'' (JStr ''unknown'')),
                  (''description'', dict_get kvs ''description'' (JStr []))] G = Inr G'"
    by (rule add_entity_result)
  show "graph_ok G'" by (rule add_node_ok(1)[OF an assms(2)])
  show "edge_data G' u v = edge_data G u v" by (rule add_node_ok(2)[OF an assms(2)])
  show "\<exists>k. name_key e = Some k \<and> k \<noteq> KNone \<and>
          map fst (node G') = (if k \<in> set (map fst (node G)) then map fst (node G) else map fst (node G) @ [k])"
    using add_node_ok(3)[OF an assms(2)] by (simp add: e nm)
qed

lemma empty_graph_ok: "graph_ok empty_graph"
  by (simp add: graph_ok_def empty_graph_def edge_data_def)

lemma empty_graph_edges: "edge_data empty_graph u v = None"
  by (simp add: empty_graph_def edge_data_def)

lemma entities_ok:
  "for_each add_entity es G = Inr G' \<Longrightarrow> graph_ok G \<Longrightarrow>
     graph_ok G' \<and> (\<forall>u v. edge_data G' u v = edge_data G u v) \<and>
     set (map fst (node G')) = set (map fst (node G)) \<union> set (List.map_filter name_key es) \<and>
     (\<forall>e \<in> set es. \<exists>k. name_key e = Some k \<and> k \<noteq> KNone)"
proof (induction es arbitrary: G)
  case Nil
  then show ?case by (simp add: List.map_filter_simps)
next
  case (Cons e es)
  from Cons.prems(1) obtain H where b: "add_entity e G = Inr H" and r: "for_each add_entity es H = Inr G'"
    by (auto split: sum.splits)
  note h = add_entity_ok[OF b Cons.prems(2)]
  from h(3) obtain k where k: "name_key e = Some k" "k \<noteq> KNone"
    "map fst (node H) = (if k \<in> set (map fst (node G)) then map fst (node G) else map fst (node G) @ [k])"
    by blast
  have s: "set (map fst (node H)) = insert k (set (map fst (node G)))"
    using k(3) by auto
  from Cons.IH[OF r h(1)] show ?case
    using h(2) k(1,2) s by (auto simp: List.map_filter_simps)
qed

lemma add_entity_attrs:
  assumes "add_entity (JObj kvs) G = Inr G'" and "typed_nodes G" and "name_key (JObj kvs) = Some k"
  shows "map_of (node G') k = Some (node_attrs kvs)"
    and "k' \<noteq> k \<Longrightarrow> map_of (node G') k' = map_of (node G) k'"
    and "typed_nodes G'"
proof -
  from assms(1) obtain kvs' nm where e: "JObj kvs = JObj kvs'" and nm: "map_of kvs' ''name'' = Some nm"
    and an: "add_node nm [(''type'', dict_get kvs' ''type'' (JStr ''unknown'')),
                  (''description'', dict_get kvs' ''description'' (JStr []))] G = Inr G'"
    by (rule add_entity_result)
  from e have [simp]: "kvs' = kvs" by simp
  from assms(3) nm have k: "key_of nm = Some k" by simp
  from add_node_result[OF an] k
  have n: "node G' = AList.update k (dict_update (case map_of (node G) k of None \<Rightarrow> [] | Some a \<Rightarrow> a)
              [(''type'', dict_get kvs ''type'' (JStr ''unknown'')),
               (''description'', dict_get kvs ''description'' (JStr []))]) (node G)"
    by auto
  have d: "dict_update (case map_of (node G) k of None \<Rightarrow> [] | Some a \<Rightarrow> a)
              [(''type'', dict_get kvs ''type'' (JStr ''unknown'')),
               (''description'', dict_get kvs ''description'' (JStr []))] = node_attrs kvs"
  proof (cases "map_of (node G) k")
    case None
    then show ?thesis by (simp add: fresh_attrs node_attrs_def)
  next
    case (Some a)
    with assms(2) obtain t d where "a = [(''type'', t), (''description'', d)]"
      unfolding typed_nodes_def by blast
    with Some show ?thesis by (simp add: overwritten_attrs node_attrs_def)
  qed
  show "map_of (node G') k = Some (node_attrs kvs)"
    by (simp add: n d update_conv')
  show "k' \<noteq> k \<Longrightarrow> map_of (node G') k' = map_of (node G) k'"
    by (simp add: n update_conv')
  show "typed_nodes G'"
    unfolding typed_nodes_def
  proof (intro allI impI)
    fix k' a assume "map_of (node G') k' = Some a"
    then show "\<exists>t d. a = [(''type'', t), (''description'', d)]"
      using assms(2) unfolding typed_nodes_def
      by (cases "k' = k") (auto simp: n d update_conv' node_attrs_def)
  qed
qed

lemma ensure_node_present: "map_of (node G) u \<noteq> None \<Longrightarrow> ensure_node u G = Inr G"
  by (auto simp: ensure_node_def)

lemma has_node_key: "has_node G x \<Longrightarrow> \<exists>k. key_of x = Some k \<and> map_of (node G) k \<noteq> None"
  by (auto simp: has_node_def split: option.splits)

lemma truthy_key_of: "truthy x \<Longrightarrow> key_of x = Some k \<Longrightarrow> truthy_key k"
  by (cases x) auto

lemma link_result:
  assumes "map_of (adj G) u = Some nu" and "map_of (adj G) v = Some nv"
  shows "\<exists>G'. link u v attr G = Inr G' \<and> node G' = node G \<and> map fst (adj G') = map fst (adj G) \<and>
           (\<forall>x. map_of (adj G') x =
              (if x = v then Some (AList.update u (dict_update (case edge_data G u v of Some d \<Rightarrow> d | None \<Rightarrow> []) attr)
                                   (if u = v then AList.update v (dict_update (case edge_data G u v of Some d \<Rightarrow> d | None \<Rightarrow> []) attr) nu else nv))
               else if x = u then Some (AList.update v (dict_update (case edge_data G u v of Some d \<Rightarrow> d | None \<Rightarrow> []) attr) nu)
               else map_of (adj G) x)) \<and>
           (\<forall>x y. edge_data G' x y =
              (if (x = u \<and> y = v) \<or> (x = v \<and> y = u)
               then Some (dict_update (case edge_data G u v of Some d \<Rightarrow> d | None \<Rightarrow> []) attr)
               else edge_data G x y))"
proof -
  have ku: "u \<in> set (map fst (adj G))" and kv: "v \<in> set (map fst (adj G))"
    using assms map_of_None_keys[of "adj G" u] map_of_None_keys[of "adj G" v] by simp_all
  show ?thesis
    using assms ku kv
    by (auto simp: link_def Let_def edge_data_def update_conv' update_keys split: option.splits)
qed

lemma add_relationship_dict:
  "add_relationship rel G = Inr G' \<Longrightarrow> \<exists>kvs. rel = JObj kvs"
  by (cases rel) (simp_all add: add_relationship_def)

lemma add_relationship_dropped:
  "\<not> linkable G kvs \<Longrightarrow> add_relationship (JObj kvs) G = Inr G"
  by (auto simp: add_relationship_def linkable_def)

lemma add_edge_nodes:
  assumes "key_of s = Some u" "key_of t = Some v" "map_of (node G) u \<noteq> None" "map_of (node G) v \<noteq> None"
  shows "add_edge s t attr G = link u v attr G"
  using assms by (simp add: add_edge_def ensure_node_present)

lemma add_relationship_linked:
  assumes "graph_ok G" and "linkable G kvs"
  shows "\<exists>G' u v. key_of (dict_get kvs ''source'' (JStr [])) = Some u \<and>
           key_of (dict_get kvs ''target'' (JStr [])) = Some v \<and>
           truthy_key u \<and> truthy_key v \<and>
           map_of (node G) u \<noteq> None \<and> map_of (node G) v \<noteq> None \<and>
           add_relationship (JObj kvs) G = Inr G' \<and> node G' = node G \<and>
           map fst (adj G') = map fst (adj G) \<and>
           (\<forall>x nbrs. map_of (adj G') x = Some nbrs \<longrightarrow> distinct (map fst nbrs)) \<and>
           (\<forall>x y. edge_data G' x y =
              (if (x = u \<and> y = v) \<or> (x = v \<and> y = u)
               then Some (dict_update (case edge_data G u v of Some d \<Rightarrow> d | None \<Rightarrow> []) (edge_attrs kvs))
               else edge_data G x y))"
proof -
  let ?s = "dict_get kvs ''source'' (JStr [])" and ?t = "dict_get kvs ''target'' (JStr [])"
  from assms(2) have ts: "truthy ?s" and tt: "truthy ?t" and hs: "has_node G ?s" and ht: "has_node G ?t"
    by (simp_all add: linkable_def)
  from has_node_key[OF hs] obtain u where u: "key_of ?s = Some u" "map_of (node G) u \<noteq> None" by blast
  from has_node_key[OF ht] obtain v where v: "key_of ?t = Some v" "map_of (node G) v \<noteq> None" by blast
  from assms(1) have e: "map fst (adj G) = map fst (node G)" by (simp add: graph_ok_def)
  have "map_of (adj G) u \<noteq> None" "map_of (adj G) v \<noteq> None"
    using u(2) v(2) e map_of_None_keys[of "adj G"] map_of_None_keys[of "node G"] by auto
  then obtain nu nv where n: "map_of (adj G) u = Some nu" "map_of (adj G) v = Some nv" by auto
  have a: "add_relationship (JObj kvs) G = link u v (edge_attrs kvs) G"
    using ts tt hs ht add_edge_nodes[OF u(1) v(1) u(2) v(2)]
    by (simp add: add_relationship_def edge_attrs_def)
  from assms(1) have di: "\<And>x nbrs. map_of (adj G) x = Some nbrs \<Longrightarrow> distinct (map fst nbrs)"
    unfolding graph_ok_def by blast
  from link_result[OF n, of "edge_attrs kvs"] obtain G' where
    l: "link u v (edge_attrs kvs) G = Inr G'" "node G' = node G" "map fst (adj G') = map fst (adj G)"
    and m: "\<And>x. map_of (adj G') x =
              (if x = v then Some (AList.update u (dict_update (case edge_data G u v of Some d \<Rightarrow> d | None \<Rightarrow> []) (edge_attrs kvs))
                                   (if u = v then AList.update v (dict_update (case edge_data G u v of Some d \<Rightarrow> d | None \<Rightarrow> []) (edge_attrs kvs)) nu else nv))
               else if x = u then Some (AList.update v (dict_update (case edge_data G u v of Some d \<Rightarrow> d | None \<Rightarrow> []) (edge_attrs kvs)) nu)
               else map_of (adj G) x)"
    and ed: "\<And>x y. edge_data G' x y =
              (if (x = u \<and> y = v) \<or> (x = v \<and> y = u)
               then Some (dict_update (case edge_data G u v of Some d \<Rightarrow> d | None \<Rightarrow> []) (edge_attrs kvs))
               else edge_data G x y)"
    by blast
  have di': "distinct (map fst nbrs)" if "map_of (adj G') x = Some nbrs" for x nbrs
    using that di[OF n(1)] di[OF n(2)] di[of x nbrs] unfolding m[of x]
    by (auto simp: distinct_update split: if_splits)
  show ?thesis
    using u v a l di' ed truthy_key_of[OF ts u(1)] truthy_key_of[OF tt v(1)] by auto
qed

lemma add_relationship_ok:
  assumes "add_relationship rel G = Inr G'" and "graph_ok G"
  shows "graph_ok G'" and "node G' = node G" and "map fst (adj G') = map fst (adj G)"
proof -
  from add_relationship_dict[OF assms(1)] obtain kvs where r: "rel = JObj kvs" by blast
  have "graph_ok G' \<and> node G' = node G \<and> map fst (adj G') = map fst (adj G)"
  proof (cases "linkable G kvs")
    case False
    with assms r show ?thesis by (simp add: add_relationship_dropped)
  next
    case True
    from add_relationship_linked[OF assms(2) True] assms(1) r
    obtain u v where n: "node G' = node G" and k: "map fst (adj G') = map fst (adj G)"
      and di': "\<forall>x nbrs. map_of (adj G') x = Some nbrs \<longrightarrow> distinct (map fst nbrs)"
      and e: "\<forall>x y. edge_data G' x y =
              (if (x = u \<and> y = v) \<or> (x = v \<and> y = u)
               then Some (dict_update (case edge_data G u v of Some d \<Rightarrow> d | None \<Rightarrow> []) (edge_attrs kvs))
               else edge_data G x y)"
      by auto
    from assms(2) have sy: "\<And>x y. edge_data G x y = edge_data G y x" by (simp add: graph_ok_def)
    have sy': "\<forall>x y. edge_data G' x y = edge_data G' y x"
      using e sy by auto
    from assms(2) have "distinct (map fst (node G))" "map fst (adj G) = map fst (node G)"
      "KNone \<notin> set (map fst (node G))"
      unfolding graph_ok_def by blast+
    then have "distinct (map fst (node G'))" "map fst (adj G') = map fst (node G')"
      "KNone \<notin> set (map fst (node G'))"
      using n k by simp_all
    then have "graph_ok G'"
      unfolding graph_ok_def using di' sy' by blast
    then show ?thesis using n k by simp
  qed
  then show "graph_ok G'" and "node G' = node G" and "map fst (adj G') = map fst (adj G)" by simp_all
qed

lemma relationships_ok:
  "for_each add_relationship rs G = Inr G' \<Longrightarrow> graph_ok G \<Longrightarrow>
     graph_ok G' \<and> node G' = node G \<and> map fst (adj G') = map fst (adj G)"
proof (induction rs arbitrary: G)
  case Nil
  then show ?case by simp
next
  case (Cons r rs)
  from Cons.prems(1) obtain H where b: "add_relationship r G = Inr H"
    and t: "for_each add_relationship rs H = Inr G'"
    by (auto split: sum.splits)
  from add_relationship_ok[OF b Cons.prems(2)] Cons.IH[OF t] show ?case by simp
qed

lemma create_graph_phases:
  assumes "create_graph d = Inr G"
  shows "\<exists>es rs G1. records d ''entities'' = Inr es \<and> records d ''relationships'' = Inr rs \<and>
           for_each add_entity es empty_graph = Inr G1 \<and> for_each add_relationship rs G1 = Inr G"
  using assms by (auto simp: create_graph_def split: sum.splits)


section \<open>The relationship loop, record by record\<close>

lemma truthy_key_iff: "key_of x = Some k \<Longrightarrow> truthy x = truthy_key k"
  by (cases x) (auto split: if_splits)

lemma has_node_iff: "key_of x = Some k \<Longrightarrow> has_node G x = (map_of (node G) k \<noteq> None)"
  by (simp add: has_node_def)

lemma joins_sym: "joins kvs u v = joins kvs v u"
  by (auto simp: joins_def)

lemma edge_attrs_fresh: "dict_update [] (edge_attrs kvs) = edge_attrs kvs"
  by (simp add: edge_attrs_def fresh_attrs)

lemma edge_attrs_over:
  "a = [(''relationship'', r), (''description'', d)] \<Longrightarrow> dict_update a (edge_attrs kvs) = edge_attrs kvs"
  by (simp add: edge_attrs_def overwritten_attrs)

lemma relationship_step:
  assumes "add_relationship rel G = Inr G'" and "graph_ok G" and "typed_edges G"
  shows "\<exists>kvs. rel = JObj kvs \<and> graph_ok G' \<and> typed_edges G' \<and> node G' = node G \<and>
           (if linkable G kvs
            then \<exists>u v. joins kvs u v \<and> truthy_key u \<and> truthy_key v \<and>
                   map_of (node G) u \<noteq> None \<and> map_of (node G) v \<noteq> None \<and>
                   (\<forall>x y. edge_data G' x y =
                      (if (x = u \<and> y = v) \<or> (x = v \<and> y = u) then Some (edge_attrs kvs)
                       else edge_data G x y))
            else G' = G)"
proof -
  from add_relationship_dict[OF assms(1)] obtain kvs where r: "rel = JObj kvs" by blast
  note ok = add_relationship_ok[OF assms(1,2)]
  show ?thesis
  proof (cases "linkable G kvs")
    case False
    with assms r have "G' = G" by (simp add: add_relationship_dropped)
    with False r assms show ?thesis by auto
  next
    case True
    from add_relationship_linked[OF assms(2) True] assms(1) r
    obtain u v where u: "key_of (dict_get kvs ''source'' (JStr [])) = Some u"
      and v: "key_of (dict_get kvs ''target'' (JStr [])) = Some v"
      and t: "truthy_key u" "truthy_key v"
      and n: "map_of (node G) u \<noteq> None" "map_of (node G) v \<noteq> None"
      and e: "\<And>x y. edge_data G' x y =
              (if (x = u \<and> y = v) \<or> (x = v \<and> y = u)
               then Some (dict_update (case edge_data G u v of Some d \<Rightarrow> d | None \<Rightarrow> []) (edge_attrs kvs))
               else edge_data G x y)"
      by auto
    have dd: "dict_update (case edge_data G u v of Some d \<Rightarrow> d | None \<Rightarrow> []) (edge_attrs kvs) = edge_attrs kvs"
    proof (cases "edge_data G u v")
      case None
      then show ?thesis by (simp add: edge_attrs_fresh)
    next
      case (Some a)
      with assms(3) obtain r' d' where "a = [(''relationship'', r'), (''description'', d')]"
        unfolding typed_edges_def by blast
      with Some show ?thesis by (simp add: edge_attrs_over)
    qed
    have e': "\<And>x y. edge_data G' x y =
              (if (x = u \<and> y = v) \<or> (x = v \<and> y = u) then Some (edge_attrs kvs) else edge_data G x y)"
      using e dd by simp
    have te: "typed_edges G'"
      unfolding typed_edges_def
    proof (intro allI impI)
      fix x y a assume a: "edge_data G' x y = Some a"
      show "\<exists>r d. a = [(''relationship'', r), (''description'', d)]"
      proof (cases "(x = u \<and> y = v) \<or> (x = v \<and> y = u)")
        case True
        with a e'[of x y] have "a = edge_attrs kvs" by simp
        then show ?thesis by (simp add: edge_attrs_def)
      next
        case False
        with a e'[of x y] have "edge_data G x y = Some a" by simp
        with assms(3) show ?thesis unfolding typed_edges_def by blast
      qed
    qed
    have j: "joins kvs u v" using u v by (simp add: joins_def)
    have "\<exists>u v. joins kvs u v \<and> truthy_key u \<and> truthy_key v \<and>
                   map_of (node G) u \<noteq> None \<and> map_of (node G) v \<noteq> None \<and>
                   (\<forall>x y. edge_data G' x y =
                      (if (x = u \<and> y = v) \<or> (x = v \<and> y = u) then Some (edge_attrs kvs)
                       else edge_data G x y))"
      using j t n e' by blast
    then show ?thesis
      using True r ok(1,2) te by simp
  qed
qed

lemma relationships_run:
  "for_each add_relationship rs G = Inr G' \<Longrightarrow> graph_ok G \<Longrightarrow> typed_edges G \<Longrightarrow>
     graph_ok G' \<and> typed_edges G' \<and> node G' = node G \<and>
     (\<forall>x y. edge_data G x y \<noteq> None \<longrightarrow> edge_data G' x y \<noteq> None) \<and>
     (\<forall>x y. edge_data G' x y \<noteq> None \<longrightarrow>
        edge_data G x y \<noteq> None \<or>
        (truthy_key x \<and> truthy_key y \<and> map_of (node G) x \<noteq> None \<and> map_of (node G) y \<noteq> None \<and>
         (\<exists>kvs. JObj kvs \<in> set rs \<and> joins kvs x y))) \<and>
     ((\<forall>kvs. JObj kvs \<in> set rs \<longrightarrow> \<not> joins kvs u v) \<longrightarrow> edge_data G' u v = edge_data G u v)"
proof (induction rs arbitrary: G)
  case Nil
  then show ?case by simp
next
  case (Cons r rs)
  from Cons.prems(1) obtain H where b: "add_relationship r G = Inr H"
    and t: "for_each add_relationship rs H = Inr G'"
    by (auto split: sum.splits)
  from relationship_step[OF b Cons.prems(2,3)] obtain kvs where r: "r = JObj kvs"
    and h: "graph_ok H" "typed_edges H" "node H = node G"
    and s: "if linkable G kvs
            then \<exists>u v. joins kvs u v \<and> truthy_key u \<and> truthy_key v \<and>
                   map_of (node G) u \<noteq> None \<and> map_of (node G) v \<noteq> None \<and>
                   (\<forall>x y. edge_data H x y =
                      (if (x = u \<and> y = v) \<or> (x = v \<and> y = u) then Some (edge_attrs kvs)
                       else edge_data G x y))
            else H = G"
    by blast
  note ih = Cons.IH[OF t h(1,2)]
  have step: "(\<exists>a b. joins kvs a b \<and> truthy_key a \<and> truthy_key b \<and>
                   map_of (node G) a \<noteq> None \<and> map_of (node G) b \<noteq> None \<and>
                   (\<forall>x y. edge_data H x y =
                      (if (x = a \<and> y = b) \<or> (x = b \<and> y = a) then Some (edge_attrs kvs)
                       else edge_data G x y))) \<or> H = G"
    using s by (cases "linkable G kvs") simp_all
  have mono: "edge_data H x y \<noteq> None" if "edge_data G x y \<noteq> None" for x y
    using step
  proof
    assume "\<exists>a b. joins kvs a b \<and> truthy_key a \<and> truthy_key b \<and>
                   map_of (node G) a \<noteq> None \<and> map_of (node G) b \<noteq> None \<and>
                   (\<forall>x y. edge_data H x y =
                      (if (x = a \<and> y = b) \<or> (x = b \<and> y = a) then Some (edge_attrs kvs)
                       else edge_data G x y))"
    then obtain a b where e: "\<And>x y. edge_data H x y =
                      (if (x = a \<and> y = b) \<or> (x = b \<and> y = a) then Some (edge_attrs kvs)
                       else edge_data G x y)" by blast
    show ?thesis using that e[of x y] by auto
  next
    assume "H = G"
    with that show ?thesis by simp
  qed
  have prov: "edge_data G x y \<noteq> None \<or>
        (truthy_key x \<and> truthy_key y \<and> map_of (node G) x \<noteq> None \<and> map_of (node G) y \<noteq> None \<and>
         joins kvs x y)" if "edge_data H x y \<noteq> None" for x y
    using step
  proof
    assume "\<exists>a b. joins kvs a b \<and> truthy_key a \<and> truthy_key b \<and>
                   map_of (node G) a \<noteq> None \<and> map_of (node G) b \<noteq> None \<and>
                   (\<forall>x y. edge_data H x y =
                      (if (x = a \<and> y = b) \<or> (x = b \<and> y = a) then Some (edge_attrs kvs)
                       else edge_data G x y))"
    then obtain a b where j: "joins kvs a b" and t: "truthy_key a" "truthy_key b"
      and n: "map_of (node G) a \<noteq> None" "map_of (node G) b \<noteq> None"
      and e: "\<And>x y. edge_data H x y =
                      (if (x = a \<and> y = b) \<or> (x = b \<and> y = a) then Some (edge_attrs kvs)
                       else edge_data G x y)" by blast
    show ?thesis
    proof (cases "(x = a \<and> y = b) \<or> (x = b \<and> y = a)")
      case True
      then show ?thesis using j t n joins_sym[of kvs a b] by auto
    next
      case False
      then have "edge_data H x y = edge_data G x y" using e[of x y] by auto
      with that show ?thesis by simp
    qed
  next
    assume "H = G"
    with that show ?thesis by simp
  qed
  have keep: "edge_data H u v = edge_data G u v" if nj: "\<not> joins kvs u v"
    using step
  proof
    assume "\<exists>a b. joins kvs a b \<and> truthy_key a \<and> truthy_key b \<and>
                   map_of (node G) a \<noteq> None \<and> map_of (node G) b \<noteq> None \<and>
                   (\<forall>x y. edge_data H x y =
                      (if (x = a \<and> y = b) \<or> (x = b \<and> y = a) then Some (edge_attrs kvs)
                       else edge_data G x y))"
    then obtain a b where j: "joins kvs a b"
      and e: "\<And>x y. edge_data H x y =
                      (if (x = a \<and> y = b) \<or> (x = b \<and> y = a) then Some (edge_attrs kvs)
                       else edge_data G x y)" by blast
    have "\<not> ((u = a \<and> v = b) \<or> (u = b \<and> v = a))"
      using nj j joins_sym[of kvs a b] by auto
    then show ?thesis using e[of u v] by auto
  next
    assume "H = G"
    then show ?thesis by simp
  qed
  have c1: "graph_ok G' \<and> typed_edges G' \<and> node G' = node G" using ih h(3) by simp
  have c2: "\<forall>x y. edge_data G x y \<noteq> None \<longrightarrow> edge_data G' x y \<noteq> None"
    using ih mono by blast
  have c3: "\<forall>x y. edge_data G' x y \<noteq> None \<longrightarrow>
        edge_data G x y \<noteq> None \<or>
        (truthy_key x \<and> truthy_key y \<and> map_of (node G) x \<noteq> None \<and> map_of (node G) y \<noteq> None \<and>
         (\<exists>kvs. JObj kvs \<in> set (r # rs) \<and> joins kvs x y))"
  proof (intro allI impI)
    fix x y assume a: "edge_data G' x y \<noteq> None"
    from ih a have "edge_data H x y \<noteq> None \<or>
        (truthy_key x \<and> truthy_key y \<and> map_of (node H) x \<noteq> None \<and> map_of (node H) y \<noteq> None \<and>
         (\<exists>kvs. JObj kvs \<in> set rs \<and> joins kvs x y))" by blast
    then show "edge_data G x y \<noteq> None \<or>
        (truthy_key x \<and> truthy_key y \<and> map_of (node G) x \<noteq> None \<and> map_of (node G) y \<noteq> None \<and>
         (\<exists>kvs. JObj kvs \<in> set (r # rs) \<and> joins kvs x y))"
    proof
      assume "edge_data H x y \<noteq> None"
      from prov[OF this] show ?thesis using r by auto
    next
      assume "truthy_key x \<and> truthy_key y \<and> map_of (node H) x \<noteq> None \<and> map_of (node H) y \<noteq> None \<and>
         (\<exists>kvs. JObj kvs \<in> set rs \<and> joins kvs x y)"
      then show ?thesis using h(3) by auto
    qed
  qed
  have c4: "(\<forall>kvs. JObj kvs \<in> set (r # rs) \<longrightarrow> \<not> joins kvs u v) \<longrightarrow> edge_data G' u v = edge_data G u v"
  proof
    assume a: "\<forall>kvs. JObj kvs \<in> set (r # rs) \<longrightarrow> \<not> joins kvs u v"
    then have "\<not> joins kvs u v" and "\<forall>kvs. JObj kvs \<in> set rs \<longrightarrow> \<not> joins kvs u v"
      using r by auto
    then show "edge_data G' u v = edge_data G u v" using ih keep by simp
  qed
  from c1 c2 c3 c4 show ?case by blast
qed

lemma entities_typed:
  "for_each add_entity es G = Inr G' \<Longrightarrow> typed_nodes G \<Longrightarrow> typed_nodes G'"
proof (induction es arbitrary: G)
  case Nil
  then show ?case by simp
next
  case (Cons e es)
  from Cons.prems(1) obtain H where b: "add_entity e G = Inr H" and r: "for_each add_entity es H = Inr G'"
    by (auto split: sum.splits)
  from add_entity_result[OF b] obtain kvs nm where e: "e = JObj kvs" and nm: "map_of kvs ''name'' = Some nm"
    and an: "add_node nm [(''type'', dict_get kvs ''type'' (JStr ''unknown'')),
                  (''description'', dict_get kvs ''description'' (JStr []))] G = Inr H" by blast
  from add_node_result[OF an] obtain k where "key_of nm = Some k" by blast
  then have "name_key (JObj kvs) = Some k" using nm by simp
  from add_entity_attrs(3)[OF b[unfolded e] Cons.prems(2) this] have "typed_nodes H" .
  from Cons.IH[OF r this] show ?case .
qed

lemma entities_keep:
  "for_each add_entity es G = Inr G' \<Longrightarrow> typed_nodes G \<Longrightarrow> \<forall>e \<in> set es. name_key e \<noteq> Some k \<Longrightarrow>
   map_of (node G') k = map_of (node G) k"
proof (induction es arbitrary: G)
  case Nil
  then show ?case by simp
next
  case (Cons e es)
  from Cons.prems(1) obtain H where b: "add_entity e G = Inr H" and r: "for_each add_entity es H = Inr G'"
    by (auto split: sum.splits)
  from add_entity_result[OF b] obtain kvs nm where e: "e = JObj kvs" and nm: "map_of kvs ''name'' = Some nm"
    and an: "add_node nm [(''type'', dict_get kvs ''type'' (JStr ''unknown'')),
                  (''description'', dict_get kvs ''description'' (JStr []))] G = Inr H" by blast
  from add_node_result[OF an] obtain k' where "key_of nm = Some k'" by blast
  then have nk: "name_key (JObj kvs) = Some k'" using nm by simp
  with Cons.prems(3) e have ne: "k \<noteq> k'" by auto
  note a = add_entity_attrs[OF b[unfolded e] Cons.prems(2) nk]
  from Cons.IH[OF r a(3)] Cons.prems(3) have "map_of (node G') k = map_of (node H) k" by simp
  with a(2)[OF ne] show ?case by simp
qed

lemma empty_graph_typed: "typed_nodes empty_graph" "typed_edges empty_graph"
  by (simp_all add: typed_nodes_def typed_edges_def empty_graph_def edge_data_def)

section \<open>The listing of the edges\<close>

lemma before_Cons: "before x (k # ks) = (if k = x then {} else insert k (before x ks))"
proof (cases "k = x")
  case True
  then show ?thesis unfolding before_def by simp
next
  case False
  then show ?thesis unfolding before_def by simp
qed

lemma before_Nil: "before x [] = {}"
  by (simp add: before_def)

lemma before_self: "x \<notin> before x ks"
  by (induction ks) (auto simp: before_Cons before_Nil)


lemma keys_map_of: "y \<in> fst ` set nbrs \<longleftrightarrow> map_of nbrs y \<noteq> None"
  by (simp add: map_of_eq_None_iff)

lemma edges_from_set:
  "distinct (map fst rows) \<Longrightarrow>
   set (edges_from seen rows) =
     {(x, y). \<exists>nbrs. map_of rows x = Some nbrs \<and> y \<in> fst ` set nbrs \<and> y \<notin> set seen \<and>
                     y \<notin> before x (map fst rows)}"
proof (induction rows arbitrary: seen)
  case Nil
  show ?case by simp
next
  case (Cons row rows)
  obtain n nbrs where row: "row = (n, nbrs)" by (cases row)
  from Cons.prems have d: "distinct (map fst rows)" and nn: "n \<notin> fst ` set rows"
    by (auto simp: row)
  have none: "map_of rows n = None" using nn by (simp add: map_of_eq_None_iff)
  have split: "set (edges_from seen (row # rows)) =
      (\<lambda>y. (n, y)) ` {y \<in> fst ` set nbrs. y \<notin> set seen} \<union> set (edges_from (n # seen) rows)"
    by (auto simp: row)
  show ?case
  proof (rule set_eqI)
    fix p :: "key \<times> key"
    obtain x y where p: "p = (x, y)" by (cases p)
    show "p \<in> set (edges_from seen (row # rows)) \<longleftrightarrow>
          p \<in> {(x, y). \<exists>nbrs. map_of (row # rows) x = Some nbrs \<and> y \<in> fst ` set nbrs \<and>
                     y \<notin> set seen \<and> y \<notin> before x (map fst (row # rows))}"
    proof (cases "x = n")
      case True
      have "(n, y) \<notin> set (edges_from (n # seen) rows)"
        using none by (simp add: Cons.IH[OF d])
      then show ?thesis
        unfolding split p using True by (auto simp: row before_Cons)
    next
      case False
      then have "p \<in> set (edges_from seen (row # rows)) \<longleftrightarrow> (x, y) \<in> set (edges_from (n # seen) rows)"
        unfolding split p by auto
      also have "\<dots> \<longleftrightarrow> (\<exists>nbrs'. map_of rows x = Some nbrs' \<and> y \<in> fst ` set nbrs' \<and>
                     y \<notin> set (n # seen) \<and> y \<notin> before x (map fst rows))"
        by (simp add: Cons.IH[OF d])
      also have "\<dots> \<longleftrightarrow> (\<exists>nbrs'. map_of (row # rows) x = Some nbrs' \<and> y \<in> fst ` set nbrs' \<and>
                     y \<notin> set seen \<and> y \<notin> before x (map fst (row # rows)))"
        using False by (auto simp: row before_Cons)
      finally show ?thesis by (simp add: p)
    qed
  qed
qed



lemma edge_data_rows:
  "edge_data G x y \<noteq> None \<longleftrightarrow> (\<exists>nbrs. map_of (adj G) x = Some nbrs \<and> y \<in> fst ` set nbrs)"
proof (cases "map_of (adj G) x")
  case None
  then show ?thesis by (simp add: edge_data_def)
next
  case (Some nbrs)
  then show ?thesis by (simp add: edge_data_def keys_map_of)
qed

lemma edges_set:
  assumes "graph_ok G"
  shows "set (edges G) = {(x, y). edge_data G x y \<noteq> None \<and> y \<notin> before x (map fst (node G))}"
proof -
  from assms have d: "distinct (map fst (adj G))" and e: "map fst (adj G) = map fst (node G)"
    unfolding graph_ok_def by simp_all
  show ?thesis
    unfolding edges_def edges_from_set[OF d] edge_data_rows e by auto
qed


section \<open>Degrees and edges\<close>





section \<open>Properties of the assembled graph\<close>

lemma create_graph_run:
  assumes "create_graph d = Inr G"
  shows "\<exists>es rs G1. records d ''entities'' = Inr es \<and> records d ''relationships'' = Inr rs \<and>
           for_each add_entity es empty_graph = Inr G1 \<and> for_each add_relationship rs G1 = Inr G \<and>
           graph_ok G1 \<and> typed_nodes G1 \<and> typed_edges G1 \<and> (\<forall>x y. edge_data G1 x y = None) \<and>
           graph_ok G \<and> typed_edges G \<and> node G = node G1"
proof -
  from create_graph_phases[OF assms] obtain es rs G1 where
    r: "records d ''entities'' = Inr es" "records d ''relationships'' = Inr rs" and
    p: "for_each add_entity es empty_graph = Inr G1" "for_each add_relationship rs G1 = Inr G" by blast
  from entities_ok[OF p(1) empty_graph_ok]
  have g1: "graph_ok G1" and e1: "\<forall>x y. edge_data G1 x y = None"
    by (simp_all add: empty_graph_edges)
  have t1: "typed_nodes G1" by (rule entities_typed[OF p(1) empty_graph_typed(1)])
  have te1: "typed_edges G1" using e1 by (simp add: typed_edges_def)
  from relationships_run[OF p(2) g1 te1, of KNone KNone]
  have "graph_ok G" "typed_edges G" "node G = node G1" by simp_all
  with r p g1 t1 te1 e1 show ?thesis by blast
qed

lemma relationships_total:
  "graph_ok G \<Longrightarrow> \<forall>r \<in> set rs. \<exists>kvs. r = JObj kvs \<Longrightarrow> \<exists>G'. for_each add_relationship rs G = Inr G'"
proof (induction rs arbitrary: G)
  case Nil
  show ?case by simp
next
  case (Cons r rs)
  from Cons.prems(2) obtain kvs where r: "r = JObj kvs" by auto
  have "\<exists>H. add_relationship r G = Inr H"
  proof (cases "linkable G kvs")
    case True
    from add_relationship_linked[OF Cons.prems(1) True] show ?thesis unfolding r by blast
  next
    case False
    then show ?thesis unfolding r by (simp add: add_relationship_dropped)
  qed
  then obtain H where h: "add_relationship r G = Inr H" by blast
  from add_relationship_ok(1)[OF h Cons.prems(1)] have "graph_ok H" .
  from Cons.IH[OF this] Cons.prems(2) obtain G' where "for_each add_relationship rs H = Inr G'"
    by auto
  with h show ?case by simp
qed

lemma node_keys: "k \<in> set (map fst (node G)) \<longleftrightarrow> map_of (node G) k \<noteq> None"
  using map_of_None_keys[of "node G" k] by simp

lemma edge_ends:
  assumes "graph_ok G" and "edge_data G x y \<noteq> None"
  shows "x \<in> set (map fst (node G))" and "y \<in> set (map fst (node G))"
proof -
  from assms(1) have e: "map fst (adj G) = map fst (node G)"
    and sy: "edge_data G x y = edge_data G y x"
    unfolding graph_ok_def by simp_all
  have key: "a \<in> set (map fst (node G))" if "edge_data G a b \<noteq> None" for a b
  proof -
    from that have "map_of (adj G) a \<noteq> None" by (auto simp: edge_data_def split: option.splits)
    then have "a \<in> set (map fst (adj G))" using map_of_None_keys[of "adj G" a] by simp
    then show ?thesis using e by simp
  qed
  show "x \<in> set (map fst (node G))" using key[OF assms(2)] .
  show "y \<in> set (map fst (node G))" using key[of y x] assms(2) sy by simp
qed


lemma joins_same:
  "joins kvs u v \<Longrightarrow> joins kvs a b \<Longrightarrow> (a = u \<and> b = v) \<or> (a = v \<and> b = u)"
  by (auto simp: joins_def)

lemma joins_linkable:
  assumes "joins kvs u v" "truthy_key u" "truthy_key v"
    "map_of (node G) u \<noteq> None" "map_of (node G) v \<noteq> None"
  shows "linkable G kvs"
  using assms
  by (auto simp: joins_def linkable_def truthy_key_iff has_node_iff)

lemma record_links:
  assumes run: "for_each add_relationship (pre @ JObj kvs # post) G1 = Inr G"
    and ok: "graph_ok G1" "typed_edges G1"
    and j: "joins kvs u v" and t: "truthy_key u" "truthy_key v"
    and n: "map_of (node G1) u \<noteq> None" "map_of (node G1) v \<noteq> None"
  shows "\<exists>Ga. for_each add_relationship post Ga = Inr G \<and> graph_ok Ga \<and> typed_edges Ga \<and>
           edge_data Ga u v = Some (edge_attrs kvs) \<and> edge_data Ga v u = Some (edge_attrs kvs)"
proof -
  from run obtain Gb Ga where b: "for_each add_relationship pre G1 = Inr Gb"
    and s: "add_relationship (JObj kvs) Gb = Inr Ga"
    and a: "for_each add_relationship post Ga = Inr G"
    by (auto simp: for_each_append split: sum.splits)
  from relationships_run[OF b ok, of u v]
  have gb: "graph_ok Gb" "typed_edges Gb" "node Gb = node G1" by simp_all
  have l: "linkable Gb kvs" using joins_linkable[OF j t] n gb(3) by simp
  from relationship_step[OF s gb(1,2)] l
  obtain a' b' where ga: "graph_ok Ga" "typed_edges Ga" and j': "joins kvs a' b'"
    and e: "\<And>x y. edge_data Ga x y =
              (if (x = a' \<and> y = b') \<or> (x = b' \<and> y = a') then Some (edge_attrs kvs) else edge_data Gb x y)"
    by auto
  from joins_same[OF j j'] have c: "(a' = u \<and> b' = v) \<or> (a' = v \<and> b' = u)" .
  have "edge_data Ga u v = Some (edge_attrs kvs)" "edge_data Ga v u = Some (edge_attrs kvs)"
    using c e[of u v] e[of v u] by auto
  with a ga show ?thesis by blast
qed

lemma in_map_filter:
  "x \<in> set xs \<Longrightarrow> f x = Some y \<Longrightarrow> y \<in> set (List.map_filter f xs)"
  by (induction xs) (auto split: option.splits)

lemma add_entity_named:
  "map_of kvs ''name'' = Some (JStr s) \<Longrightarrow> \<exists>G'. add_entity (JObj kvs) G = Inr G'"
  by (simp add: add_entity_def add_node_def split: option.splits)

lemma entities_total:
  "\<forall>e \<in> set es. \<exists>kvs s. e = JObj kvs \<and> map_of kvs ''name'' = Some (JStr s) \<Longrightarrow>
   \<exists>G'. for_each add_entity es G = Inr G'"
proof (induction es arbitrary: G)
  case Nil
  show ?case by simp
next
  case (Cons e es)
  from Cons.prems obtain kvs s where e: "e = JObj kvs" "map_of kvs ''name'' = Some (JStr s)" by auto
  from add_entity_named[OF e(2), of G] obtain H where h: "add_entity e G = Inr H" unfolding e(1) by blast
  from Cons.IH[of H] Cons.prems obtain G' where "for_each add_entity es H = Inr G'" by auto
  with h show ?case by simp
qed

lemma sample_run: "create_graph sample_data = Inr sample_graph"
  by code_simp

lemma sample_records:
  "records sample_data ''entities'' = Inr sample_entities"
  "records sample_data ''relationships'' = Inr sample_relationships"
  by (simp_all add: records_def sample_data_def dict_get_def)

lemma sample_edges: "edges sample_graph = [(KStr ''A'', KStr ''B''), (KStr ''B'', KStr ''B'')]"
  by (simp add: edges_def sample_graph_def)

lemma sample_nodes: "map fst (node sample_graph) = [KStr ''A'', KStr ''B'']"
  by (simp add: sample_graph_def)

section \<open>Rounding\<close>































section \<open>The statistics of the assembled graph\<close>

















section \<open>The properties\<close>

text \<open>
  C1. Every edge of the graph that \<^verbatim>\<open>create_graph\<close> returns joins two nodes of the graph,
  neither end is empty (or false in any other way), and the edge comes from a relationship
  record whose source and target are its two ends. A relationship record whose source or
  target is absent, empty or not a node leaves the graph as it is and raises nothing; and
  when the entity loop has succeeded, no list of relationship records makes the call fail.
\<close>

theorem edges_join_nodes:
  "(create_graph d = Inr G \<longrightarrow>
      (\<exists>rs. records d ''relationships'' = Inr rs \<and>
         (\<forall>(u, v) \<in> set (edges G).
            u \<in> set (map fst (node G)) \<and> v \<in> set (map fst (node G)) \<and>
            truthy_key u \<and> truthy_key v \<and>
            (\<exists>kvs. JObj kvs \<in> set rs \<and> joins kvs u v))))
   \<and> (dict_get kvs ''source'' (JStr []) = JStr [] \<or>
       dict_get kvs ''target'' (JStr []) = JStr [] \<or>
       \<not> has_node H (dict_get kvs ''source'' (JStr [])) \<or>
       \<not> has_node H (dict_get kvs ''target'' (JStr [])) \<longrightarrow>
         add_relationship (JObj kvs) H = Inr H)
   \<and> (records d ''entities'' = Inr es \<and> for_each add_entity es empty_graph = Inr G1 \<and>
       records d ''relationships'' = Inr rs' \<and> (\<forall>r \<in> set rs'. \<exists>kvs'. r = JObj kvs') \<longrightarrow>
         (\<exists>G2. create_graph d = Inr G2))"
proof (intro conjI impI)
  assume c: "create_graph d = Inr G"
  from create_graph_run[OF c] obtain es rs G1 where
    r: "records d ''relationships'' = Inr rs"
    and p: "for_each add_relationship rs G1 = Inr G"
    and g1: "graph_ok G1" "typed_edges G1" and e1: "\<forall>x y. edge_data G1 x y = None"
    and g: "graph_ok G" and n: "node G = node G1" by blast
  have "\<forall>(u, v) \<in> set (edges G).
            u \<in> set (map fst (node G)) \<and> v \<in> set (map fst (node G)) \<and>
            truthy_key u \<and> truthy_key v \<and>
            (\<exists>kvs. JObj kvs \<in> set rs \<and> joins kvs u v)"
  proof (clarify)
    fix u v assume "(u, v) \<in> set (edges G)"
    then have ed: "edge_data G u v \<noteq> None" unfolding edges_set[OF g] by simp
    from relationships_run[OF p g1, of u v] ed e1
    have "truthy_key u \<and> truthy_key v \<and> (\<exists>kvs. JObj kvs \<in> set rs \<and> joins kvs u v)"
      by blast
    with edge_ends[OF g ed]
    show "u \<in> set (map fst (node G)) \<and> v \<in> set (map fst (node G)) \<and>
            truthy_key u \<and> truthy_key v \<and>
            (\<exists>kvs. JObj kvs \<in> set rs \<and> joins kvs u v)" by simp
  qed
  with r show "\<exists>rs. records d ''relationships'' = Inr rs \<and>
         (\<forall>(u, v) \<in> set (edges G).
            u \<in> set (map fst (node G)) \<and> v \<in> set (map fst (node G)) \<and>
            truthy_key u \<and> truthy_key v \<and>
            (\<exists>kvs. JObj kvs \<in> set rs \<and> joins kvs u v))" by blast
next
  assume "dict_get kvs ''source'' (JStr []) = JStr [] \<or>
       dict_get kvs ''target'' (JStr []) = JStr [] \<or>
       \<not> has_node H (dict_get kvs ''source'' (JStr [])) \<or>
       \<not> has_node H (dict_get kvs ''target'' (JStr []))"
  then have "\<not> linkable H kvs" by (auto simp: linkable_def)
  then show "add_relationship (JObj kvs) H = Inr H" by (rule add_relationship_dropped)
next
  assume a: "records d ''entities'' = Inr es \<and> for_each add_entity es empty_graph = Inr G1 \<and>
       records d ''relationships'' = Inr rs' \<and> (\<forall>r \<in> set rs'. \<exists>kvs'. r = JObj kvs')"
  then have "graph_ok G1" using entities_ok[OF _ empty_graph_ok, of es G1] by simp
  from relationships_total[OF this, of rs'] a obtain G2 where "for_each add_relationship rs' G1 = Inr G2"
    by blast
  with a show "\<exists>G2. create_graph d = Inr G2" by (simp add: create_graph_def)
qed

theorem edges_join_nodes_witness:
  "create_graph sample_data = Inr sample_graph
   \<and> (KStr ''A'', KStr ''B'') \<in> set (edges sample_graph)
   \<and> KStr ''A'' \<in> set (map fst (node sample_graph))
   \<and> KStr ''B'' \<in> set (map fst (node sample_graph))
   \<and> truthy_key (KStr ''A'') \<and> truthy_key (KStr ''B'')
   \<and> \<not> has_node sample_graph (JStr ''C'')
   \<and> add_relationship (JObj [(''source'', JStr ''C''), (''target'', JStr ''B'')]) sample_graph =
       Inr sample_graph
   \<and> add_relationship (JObj [(''target'', JStr ''B'')]) sample_graph = Inr sample_graph
   \<and> (\<exists>G2. create_graph sample_data = Inr G2)"
proof -
  have m: "(KStr ''A'', KStr ''B'') \<in> set (edges sample_graph)"
    by (simp add: sample_edges)
  have h: "\<not> has_node sample_graph (JStr ''C'')"
    by (simp add: has_node_def sample_graph_def)
  have e: "for_each add_entity sample_entities empty_graph =
      Inr \<lparr>node =
        [(KStr ''A'', [(''type'', JStr ''unknown''), (''description'', JStr ''again'')]),
         (KStr ''B'', [(''type'', JStr ''person''), (''description'', JStr [])])],
      adj = [(KStr ''A'', []), (KStr ''B'', [])]\<rparr>"
    by code_simp
  have r: "\<forall>r \<in> set sample_relationships. \<exists>kvs'. r = JObj kvs'"
    by (simp add: sample_relationships_def)
  note t1 = edges_join_nodes[of sample_data sample_graph
      "[(''source'', JStr ''C''), (''target'', JStr ''B'')]" sample_graph sample_entities
      "\<lparr>node =
        [(KStr ''A'', [(''type'', JStr ''unknown''), (''description'', JStr ''again'')]),
         (KStr ''B'', [(''type'', JStr ''person''), (''description'', JStr [])])],
      adj = [(KStr ''A'', []), (KStr ''B'', [])]\<rparr>" sample_relationships]
  note t2 = edges_join_nodes[of sample_data sample_graph
      "[(''target'', JStr ''B'')]" sample_graph sample_entities empty_graph sample_relationships]
  from t1 sample_run obtain rs where
    b: "\<forall>(u, v) \<in> set (edges sample_graph).
            u \<in> set (map fst (node sample_graph)) \<and> v \<in> set (map fst (node sample_graph)) \<and>
            truthy_key u \<and> truthy_key v \<and>
            (\<exists>kvs. JObj kvs \<in> set rs \<and> joins kvs u v)" by blast
  from b m have c1: "KStr ''A'' \<in> set (map fst (node sample_graph)) \<and>
      KStr ''B'' \<in> set (map fst (node sample_graph)) \<and>
      truthy_key (KStr ''A'') \<and> truthy_key (KStr ''B'')" by blast
  from t1 h have c2: "add_relationship (JObj [(''source'', JStr ''C''), (''target'', JStr ''B'')]) sample_graph =
       Inr sample_graph" by (simp add: dict_get_def)
  from t2 have c3: "add_relationship (JObj [(''target'', JStr ''B'')]) sample_graph = Inr sample_graph"
    by (simp add: dict_get_def)
  from t1 e r sample_records have c4: "\<exists>G2. create_graph sample_data = Inr G2" by blast
  from sample_run m c1 h c2 c3 c4 show ?thesis by blast
qed

text \<open>
  C5. The node of a name carries the type and the description of the last entity record
  with that name, \<^verbatim>\<open>"unknown"\<close> and the empty string standing for an absent field, and the
  name occurs once among the nodes.
\<close>

theorem last_entity_wins:
  assumes "create_graph d = Inr G"
    and "records d ''entities'' = Inr (pre @ JObj kvs # post)"
    and "name_key (JObj kvs) = Some k"
    and "\<forall>e \<in> set post. name_key e \<noteq> Some k"
  shows "node_data G k =
           Some [(''type'', dict_get kvs ''type'' (JStr ''unknown'')),
                 (''description'', dict_get kvs ''description'' (JStr []))]
         \<and> distinct (map fst (node G)) \<and> k \<in> set (map fst (node G))"
proof -
  from create_graph_run[OF assms(1)] assms(2) obtain G1 where
    p: "for_each add_entity (pre @ JObj kvs # post) empty_graph = Inr G1"
    and g: "graph_ok G" and n: "node G = node G1" by auto
  from p obtain Gb Ga where b: "for_each add_entity pre empty_graph = Inr Gb"
    and s: "add_entity (JObj kvs) Gb = Inr Ga"
    and a: "for_each add_entity post Ga = Inr G1"
    by (auto simp: for_each_append split: sum.splits)
  have tb: "typed_nodes Gb" by (rule entities_typed[OF b empty_graph_typed(1)])
  note st = add_entity_attrs[OF s tb assms(3)]
  from entities_keep[OF a st(3) assms(4)] st(1)
  have "map_of (node G1) k = Some (node_attrs kvs)" by simp
  then have nd: "node_data G k = Some (node_attrs kvs)" by (simp add: node_data_def n)
  then have "k \<in> set (map fst (node G))" using node_keys[of k G] by (simp add: node_data_def)
  moreover from g have "distinct (map fst (node G))" unfolding graph_ok_def by simp
  ultimately show ?thesis using nd by (simp add: node_attrs_def)
qed

theorem last_entity_wins_witness:
  "create_graph sample_data = Inr sample_graph
   \<and> records sample_data ''entities'' =
       Inr ([JObj [(''name'', JStr ''A'')], JObj [(''name'', JStr ''B''), (''type'', JStr ''person'')]]
            @ JObj [(''name'', JStr ''A''), (''description'', JStr ''again'')] # [])
   \<and> node_data sample_graph (KStr ''A'') =
       Some [(''type'', JStr ''unknown''), (''description'', JStr ''again'')]
   \<and> distinct (map fst (node sample_graph))
   \<and> KStr ''A'' \<in> set (map fst (node sample_graph))"
proof -
  have r: "records sample_data ''entities'' =
       Inr ([JObj [(''name'', JStr ''A'')], JObj [(''name'', JStr ''B''), (''type'', JStr ''person'')]]
            @ JObj [(''name'', JStr ''A''), (''description'', JStr ''again'')] # [])"
    by (simp add: sample_records sample_entities_def)
  have k: "name_key (JObj [(''name'', JStr ''A''), (''description'', JStr ''again'')]) = Some (KStr ''A'')"
    by simp
  have p: "\<forall>e \<in> set []. name_key e \<noteq> Some (KStr ''A'')" by simp
  from last_entity_wins[OF sample_run r k p] r sample_run
  show ?thesis by (simp add: dict_get_def)
qed



text \<open>
  C7. An entity record without a name is not inserted under the empty key: the subscript
  \<^verbatim>\<open>entity["name"]\<close> raises \<^verbatim>\<open>KeyError\<close>, so that \<^verbatim>\<open>create_graph\<close> returns no graph for
  any record with such an entity, and raises exactly this \<^verbatim>\<open>KeyError\<close> when the entity
  records before it have names. The type and the description of the same record are read
  with a default and never raise. The rest of the property holds: every record whose
  entity records have a string for their name and whose relationship records are
  dictionaries gives a graph whose nodes are the names, and an entity with the empty name
  is the node with the empty key.
\<close>

theorem missing_name_raises:
  "(records d ''entities'' = Inr (pre @ JObj kvs # post) \<and> map_of kvs ''name'' = None \<longrightarrow>
      (\<exists>e. create_graph d = Inl e) \<and>
      ((\<forall>x \<in> set pre. \<exists>kvs' s. x = JObj kvs' \<and> map_of kvs' ''name'' = Some (JStr s)) \<longrightarrow>
         create_graph d = Inl (KeyError ''name'')))
   \<and> (map_of kvs ''name'' = None \<longrightarrow>
         add_entity (JObj kvs) H = Inl (KeyError ''name'') \<and>
         (\<exists>t. py_get (JObj kvs) ''type'' (JStr ''unknown'') = Inr t) \<and>
         (\<exists>t. py_get (JObj kvs) ''description'' (JStr []) = Inr t))
   \<and> (records d ''entities'' = Inr es \<and> records d ''relationships'' = Inr rs \<and>
        (\<forall>e \<in> set es. \<exists>kvs s. e = JObj kvs \<and> map_of kvs ''name'' = Some (JStr s)) \<and>
        (\<forall>r \<in> set rs. \<exists>kvs. r = JObj kvs) \<longrightarrow>
          (\<exists>G. create_graph d = Inr G \<and>
                set (map fst (node G)) = set (List.map_filter name_key es) \<and>
                (\<forall>kvs. JObj kvs \<in> set es \<and> map_of kvs ''name'' = Some (JStr []) \<longrightarrow>
                   KStr [] \<in> set (map fst (node G)))))"
proof (intro conjI impI)
  assume a: "records d ''entities'' = Inr (pre @ JObj kvs # post) \<and> map_of kvs ''name'' = None"
  then have b: "add_entity (JObj kvs) G = Inl (KeyError ''name'')" for G
    by (simp add: add_entity_def)
  have "\<exists>e. for_each add_entity (pre @ JObj kvs # post) empty_graph = Inl e"
    using b by (cases "for_each add_entity pre empty_graph") (simp_all add: for_each_append)
  with a show "\<exists>e. create_graph d = Inl e"
    by (auto simp add: create_graph_def)
next
  assume a: "records d ''entities'' = Inr (pre @ JObj kvs # post) \<and> map_of kvs ''name'' = None"
    and n: "\<forall>x \<in> set pre. \<exists>kvs' s. x = JObj kvs' \<and> map_of kvs' ''name'' = Some (JStr s)"
  from a have b: "add_entity (JObj kvs) G = Inl (KeyError ''name'')" for G
    by (simp add: add_entity_def)
  from entities_total[OF n, of empty_graph] obtain G1 where "for_each add_entity pre empty_graph = Inr G1"
    by blast
  then have "for_each add_entity (pre @ JObj kvs # post) empty_graph = Inl (KeyError ''name'')"
    by (simp add: for_each_append b)
  with a show "create_graph d = Inl (KeyError ''name'')"
    by (simp add: create_graph_def)
next
  assume "map_of kvs ''name'' = None"
  then show "add_entity (JObj kvs) H = Inl (KeyError ''name'')"
    by (simp add: add_entity_def)
next
  show "\<exists>t. py_get (JObj kvs) ''type'' (JStr ''unknown'') = Inr t"
    by simp
next
  show "\<exists>t. py_get (JObj kvs) ''description'' (JStr []) = Inr t"
    by simp
next
  assume a: "records d ''entities'' = Inr es \<and> records d ''relationships'' = Inr rs \<and>
      (\<forall>e \<in> set es. \<exists>kvs s. e = JObj kvs \<and> map_of kvs ''name'' = Some (JStr s)) \<and>
      (\<forall>r \<in> set rs. \<exists>kvs. r = JObj kvs)"
  then obtain G1 where p1: "for_each add_entity es empty_graph = Inr G1"
    using entities_total[of es empty_graph] by blast
  from entities_ok[OF p1 empty_graph_ok]
  have g1: "graph_ok G1" and s: "set (map fst (node G1)) = set (List.map_filter name_key es)"
    by (simp_all add: empty_graph_def)
  from relationships_total[OF g1, of rs] a obtain G where p2: "for_each add_relationship rs G1 = Inr G"
    by blast
  from relationships_ok[OF p2 g1] have n: "node G = node G1" by simp
  have c: "create_graph d = Inr G" using a p1 p2 by (simp add: create_graph_def)
  have "\<forall>kvs. JObj kvs \<in> set es \<and> map_of kvs ''name'' = Some (JStr []) \<longrightarrow>
                 KStr [] \<in> set (map fst (node G))"
  proof (intro allI impI)
    fix kvs assume k: "JObj kvs \<in> set es \<and> map_of kvs ''name'' = Some (JStr [])"
    then have "name_key (JObj kvs) = Some (KStr [])" by simp
    with k have "KStr [] \<in> set (List.map_filter name_key es)"
      using in_map_filter[of "JObj kvs" es name_key "KStr []"] by blast
    then show "KStr [] \<in> set (map fst (node G))" using s n by simp
  qed
  with c s n show "\<exists>G. create_graph d = Inr G \<and>
              set (map fst (node G)) = set (List.map_filter name_key es) \<and>
              (\<forall>kvs. JObj kvs \<in> set es \<and> map_of kvs ''name'' = Some (JStr []) \<longrightarrow>
                 KStr [] \<in> set (map fst (node G)))" by auto
qed

theorem missing_name_raises_witness:
  "records missing_name_data ''entities'' =
     Inr ([] @ JObj [(''type'', JStr ''person''), (''description'', JStr ''no name'')] # [])
   \<and> map_of [(''type'', JStr ''person''), (''description'', JStr ''no name'')] ''name'' = None
   \<and> create_graph missing_name_data = Inl (KeyError ''name'')
   \<and> records unnamed_data ''entities'' = Inr [JObj [(''name'', JStr []), (''type'', JStr ''person'')]]
   \<and> records unnamed_data ''relationships'' = Inr []
   \<and> (\<exists>G. create_graph unnamed_data = Inr G \<and> KStr [] \<in> set (map fst (node G)))"
proof -
  have m: "records missing_name_data ''entities'' =
     Inr ([] @ JObj [(''type'', JStr ''person''), (''description'', JStr ''no name'')] # [])"
    by (simp add: records_def missing_name_data_def dict_get_def)
  have k: "map_of [(''type'', JStr ''person''), (''description'', JStr ''no name'')] ''name'' = None"
    by simp
  have p: "\<forall>x \<in> set ([] :: json list). \<exists>kvs' s. x = JObj kvs' \<and> map_of kvs' ''name'' = Some (JStr s)"
    by simp
  from missing_name_raises[of missing_name_data "[]"
      "[(''type'', JStr ''person''), (''description'', JStr ''no name'')]" "[]" empty_graph "[]" "[]"]
    m k p
  have c0: "create_graph missing_name_data = Inl (KeyError ''name'')"
    by blast
  have r: "records unnamed_data ''entities'' = Inr [JObj [(''name'', JStr []), (''type'', JStr ''person'')]]"
    "records unnamed_data ''relationships'' = Inr []"
    by (simp_all add: records_def unnamed_data_def dict_get_def)
  have a: "\<forall>e \<in> set [JObj [(''name'', JStr []), (''type'', JStr ''person'')]].
      \<exists>kvs s. e = JObj kvs \<and> map_of kvs ''name'' = Some (JStr s)" by simp
  have b: "\<forall>r \<in> set ([] :: json list). \<exists>kvs. r = JObj kvs" by simp
  note t = missing_name_raises[of unnamed_data "[]" "[]" "[]" empty_graph
      "[JObj [(''name'', JStr []), (''type'', JStr ''person'')]]" "[]"]
  from t r a b obtain G where g: "create_graph unnamed_data = Inr G"
    and q: "\<forall>kvs. JObj kvs \<in> set [JObj [(''name'', JStr []), (''type'', JStr ''person'')]] \<and>
        map_of kvs ''name'' = Some (JStr []) \<longrightarrow> KStr [] \<in> set (map fst (node G))"
    by blast
  from q have "KStr [] \<in> set (map fst (node G))" by simp
  with g have c1: "\<exists>G. create_graph unnamed_data = Inr G \<and> KStr [] \<in> set (map fst (node G))" by blast
  from m k c0 r c1 show ?thesis by blast
qed




text \<open>
  C9. A relationship record whose source and target are the same non-empty name of a
  node puts a loop at that node: right after the record the loop carries its relationship
  and description, the loop is listed among the edges of the final graph, and it still
  carries those attributes there unless a later record is a loop at the same node.
\<close>

theorem self_loop_kept:
  assumes "create_graph d = Inr G"
    and "records d ''relationships'' = Inr (pre @ JObj kvs # post)"
    and "dict_get kvs ''source'' (JStr []) = JStr s"
    and "dict_get kvs ''target'' (JStr []) = JStr s"
    and "s \<noteq> []"
    and "KStr s \<in> set (map fst (node G))"
  shows "(KStr s, KStr s) \<in> set (edges G)
         \<and> (\<exists>Ga. for_each add_relationship post Ga = Inr G \<and>
                edge_data Ga (KStr s) (KStr s) =
                  Some [(''relationship'', dict_get kvs ''relationship'' (JStr ''related_to'')),
                        (''description'', dict_get kvs ''description'' (JStr []))])
         \<and> ((\<forall>kvs'. JObj kvs' \<in> set post \<longrightarrow> \<not> joins kvs' (KStr s) (KStr s)) \<longrightarrow>
              edge_data G (KStr s) (KStr s) =
                Some [(''relationship'', dict_get kvs ''relationship'' (JStr ''related_to'')),
                      (''description'', dict_get kvs ''description'' (JStr []))])"
proof -
  from create_graph_run[OF assms(1)] assms(2) obtain G1 where
    p: "for_each add_relationship (pre @ JObj kvs # post) G1 = Inr G"
    and g1: "graph_ok G1" "typed_edges G1"
    and g: "graph_ok G" and n: "node G = node G1" by auto
  have j: "joins kvs (KStr s) (KStr s)" using assms(3,4) by (simp add: joins_def)
  have t: "truthy_key (KStr s)" using assms(5) by simp
  have nn: "map_of (node G1) (KStr s) \<noteq> None"
    using assms(6) node_keys[of _ G] n by simp
  from record_links[OF p g1 j t t nn nn] obtain Ga where
    a: "for_each add_relationship post Ga = Inr G" and ga: "graph_ok Ga" "typed_edges Ga"
    and e: "edge_data Ga (KStr s) (KStr s) = Some (edge_attrs kvs)" by blast
  note run = relationships_run[OF a ga, of "KStr s" "KStr s"]
  from run e have "edge_data G (KStr s) (KStr s) \<noteq> None" by blast
  then have m: "(KStr s, KStr s) \<in> set (edges G)"
    unfolding edges_set[OF g] using before_self[of "KStr s"] by simp
  have k: "(\<forall>kvs'. JObj kvs' \<in> set post \<longrightarrow> \<not> joins kvs' (KStr s) (KStr s)) \<longrightarrow>
              edge_data G (KStr s) (KStr s) = Some (edge_attrs kvs)"
    using run e by simp
  from m a e k show ?thesis unfolding edge_attrs_def by blast
qed

theorem self_loop_kept_witness:
  "create_graph sample_data = Inr sample_graph
   \<and> KStr ''B'' \<in> set (map fst (node sample_graph))
   \<and> (KStr ''B'', KStr ''B'') \<in> set (edges sample_graph)
   \<and> edge_data sample_graph (KStr ''B'') (KStr ''B'') =
       Some [(''relationship'', JStr ''related_to''), (''description'', JStr [])]"
proof -
  have r: "records sample_data ''relationships'' =
       Inr ([JObj [(''source'', JStr ''A''), (''target'', JStr ''B'')],
             JObj [(''source'', JStr ''B''), (''target'', JStr ''A''), (''relationship'', JStr ''knows'')]]
            @ JObj [(''source'', JStr ''B''), (''target'', JStr ''B'')]
            # [JObj [(''source'', JStr ''C''), (''target'', JStr ''B'')],
               JObj [(''target'', JStr ''B'')]])"
    by (simp add: sample_records sample_relationships_def)
  have s: "dict_get [(''source'', JStr ''B''), (''target'', JStr ''B'')] ''source'' (JStr []) = JStr ''B''"
    and t: "dict_get [(''source'', JStr ''B''), (''target'', JStr ''B'')] ''target'' (JStr []) = JStr ''B''"
    by (simp_all add: dict_get_def)
  have ne: "''B'' \<noteq> []" by simp
  have n: "KStr ''B'' \<in> set (map fst (node sample_graph))" by (simp add: sample_nodes)
  have p: "\<forall>kvs'. JObj kvs' \<in> set [JObj [(''source'', JStr ''C''), (''target'', JStr ''B'')],
               JObj [(''target'', JStr ''B'')]] \<longrightarrow> \<not> joins kvs' (KStr ''B'') (KStr ''B'')"
    by (auto simp: joins_def dict_get_def)
  from self_loop_kept[OF sample_run r s t ne n] p n sample_run
  show ?thesis by (simp add: dict_get_def)
qed

text \<open>
  C10. The nodes of the graph are exactly the names of the entity records: the
  relationship loop leaves the node dictionary of the entity loop as it is.
\<close>

theorem node_set:
  assumes "create_graph d = Inr G"
  shows "\<exists>es rs G1. records d ''entities'' = Inr es \<and> records d ''relationships'' = Inr rs \<and>
           for_each add_entity es empty_graph = Inr G1 \<and>
           for_each add_relationship rs G1 = Inr G \<and>
           node G = node G1 \<and>
           set (map fst (node G)) = set (List.map_filter name_key es) \<and>
           (\<forall>e \<in> set es. name_key e \<noteq> None)"
proof -
  from create_graph_run[OF assms] obtain es rs G1 where
    r: "records d ''entities'' = Inr es" "records d ''relationships'' = Inr rs" and
    p: "for_each add_entity es empty_graph = Inr G1" "for_each add_relationship rs G1 = Inr G"
    and n: "node G = node G1" by blast
  from entities_ok[OF p(1) empty_graph_ok]
  have s: "set (map fst (node G1)) = set (List.map_filter name_key es)"
    and nk: "\<forall>e \<in> set es. \<exists>k. name_key e = Some k \<and> k \<noteq> KNone"
    by (simp_all add: empty_graph_def)
  from nk have "\<forall>e \<in> set es. name_key e \<noteq> None" by auto
  with r p n s show ?thesis by auto
qed

theorem node_set_witness:
  "create_graph sample_data = Inr sample_graph
   \<and> set (map fst (node sample_graph)) = set (List.map_filter name_key sample_entities)
   \<and> set (map fst (node sample_graph)) = {KStr ''A'', KStr ''B''}"
proof -
  from node_set[OF sample_run] sample_records(1)
  have "set (map fst (node sample_graph)) = set (List.map_filter name_key sample_entities)"
    by auto
  moreover have "set (map fst (node sample_graph)) = {KStr ''A'', KStr ''B''}"
    by (simp add: sample_nodes)
  ultimately show ?thesis using sample_run by simp
qed

end
